theory Spec2Isabelle
  imports Complex_Main "HOL-Library.Multiset"
begin

section \<open>Data model (quantile/summary.go)\<close>

text \<open>
  The Go package \<^verbatim>\<open>quantile\<close> keeps a Greenwald-Khanna summary in a skiplist of
  heap-allocated nodes. The embedding keeps the pointer structure: a skiplist carries its
  own heap, a list of nodes addressed by their index, and a Go pointer is an address
  option (\<open>None\<close> is \<^verbatim>\<open>nil\<close>). Nodes are never freed: a removed node stays in
  the heap, unlinked, as it does in Go until it is collected.

  Integers: \<^verbatim>\<open>V\<close> is an \<^verbatim>\<open>int64\<close> that is only compared and copied;
  \<^verbatim>\<open>G\<close>, \<^verbatim>\<open>Delta\<close> and \<^verbatim>\<open>N\<close> are Go \<^verbatim>\<open>int\<close>s (64 bits) that count
  observations. They are modelled as \<open>int\<close>: the model agrees with Go as long as no
  counter reaches \<open>2^63\<close>, where Go wraps around and the model does not. Sample identifiers (\<^verbatim>\<open>uint64\<close>) are opaque and modelled
  as \<open>nat\<close>; a \<^verbatim>\<open>nil\<close> slice is the empty list.
\<close>

datatype error = Panic | Diverge

record Entry =
  V :: int
  G :: int
  Delta :: int
  Samples :: "nat list"

text \<open>The zero value of the struct \<^verbatim>\<open>Entry\<close>: what a node created without a value holds.\<close>

definition zeroEntry :: Entry where
  "zeroEntry = \<lparr>V = 0, G = 0, Delta = 0, Samples = []\<rparr>"

text \<open>
  \<^verbatim>\<open>SkiplistNode{value, next, prev}\<close>. The fields \<^verbatim>\<open>value\<close> and \<^verbatim>\<open>next\<close> are
  primed because the plain words are reserved in Isabelle.
\<close>

record SkiplistNode =
  value' :: Entry
  next' :: "nat option list"
  prev :: "nat option list"

record Skiplist =
  height :: nat
  head :: nat
  nodes :: "SkiplistNode list"

record Summary =
  data :: "Skiplist option"
  EncodedData :: "Entry list"
  N :: int


definition maxHeight :: nat where
  "maxHeight = 31"

section \<open>The random source (math/rand)\<close>

text \<open>
  The global generator of \<^verbatim>\<open>math/rand\<close> is an infinite sequence of draws, read in
  order: \<open>src\<close> is the sequence and \<open>pos\<close> the number of draws consumed so far.
  \<^verbatim>\<open>rand.Int31()\<close> returns a non-negative 31-bit value as an \<^verbatim>\<open>int32\<close>. For
  \<open>n\<close> a power of two, \<^verbatim>\<open>rand.Intn(n)\<close> is \<^verbatim>\<open>Int31() & (n-1)\<close>, that is the
  draw modulo \<open>n\<close>; the only call in the package is \<^verbatim>\<open>rand.Intn(1)\<close>.
\<close>

record Rand =
  src :: "nat \<Rightarrow> int"
  pos :: nat

definition Int31 :: "Rand \<Rightarrow> int \<times> Rand" where
  "Int31 r = (src r (pos r) mod 2 ^ 31, r\<lparr>pos := pos r + 1\<rparr>)"

definition Intn :: "int \<Rightarrow> Rand \<Rightarrow> int \<times> Rand" where
  "Intn n r = (fst (Int31 r) mod n, snd (Int31 r))"

section \<open>Heap access\<close>

text \<open>
  Reading \<^verbatim>\<open>a.next[i]\<close> or \<^verbatim>\<open>a.prev[i]\<close> panics in Go when \<open>i\<close> is out of range
  of the slice; so do the models. An address outside the heap cannot occur in Go and is
  treated as a panic too.
\<close>

definition get_next :: "SkiplistNode list \<Rightarrow> nat \<Rightarrow> nat \<Rightarrow> error + nat option" where
  "get_next h a i =
     (if a < length h \<and> i < length (next' (h ! a)) then Inr (next' (h ! a) ! i) else Inl Panic)"

definition get_prev :: "SkiplistNode list \<Rightarrow> nat \<Rightarrow> nat \<Rightarrow> error + nat option" where
  "get_prev h a i =
     (if a < length h \<and> i < length (prev (h ! a)) then Inr (prev (h ! a) ! i) else Inl Panic)"

definition upd_next :: "SkiplistNode list \<Rightarrow> nat \<Rightarrow> nat \<Rightarrow> nat option \<Rightarrow> SkiplistNode list" where
  "upd_next h a i p = h[a := (h ! a)\<lparr>next' := (next' (h ! a))[i := p]\<rparr>]"

definition upd_prev :: "SkiplistNode list \<Rightarrow> nat \<Rightarrow> nat \<Rightarrow> nat option \<Rightarrow> SkiplistNode list" where
  "upd_prev h a i p = h[a := (h ! a)\<lparr>prev := (prev (h ! a))[i := p]\<rparr>]"

definition upd_value :: "SkiplistNode list \<Rightarrow> nat \<Rightarrow> Entry \<Rightarrow> SkiplistNode list" where
  "upd_value h a e = h[a := (h ! a)\<lparr>value' := e\<rparr>]"

definition set_next :: "SkiplistNode list \<Rightarrow> nat \<Rightarrow> nat \<Rightarrow> nat option \<Rightarrow> error + SkiplistNode list" where
  "set_next h a i p =
     (if a < length h \<and> i < length (next' (h ! a)) then Inr (upd_next h a i p) else Inl Panic)"

definition set_prev :: "SkiplistNode list \<Rightarrow> nat \<Rightarrow> nat \<Rightarrow> nat option \<Rightarrow> error + SkiplistNode list" where
  "set_prev h a i p =
     (if a < length h \<and> i < length (prev (h ! a)) then Inr (upd_prev h a i p) else Inl Panic)"

definition get_value :: "SkiplistNode list \<Rightarrow> nat \<Rightarrow> error + Entry" where
  "get_value h a = (if a < length h then Inr (value' (h ! a)) else Inl Panic)"

definition set_value :: "SkiplistNode list \<Rightarrow> nat \<Rightarrow> Entry \<Rightarrow> error + SkiplistNode list" where
  "set_value h a e = (if a < length h then Inr (upd_value h a e) else Inl Panic)"

text \<open>Sequencing of fallible steps: the first error ends the computation.\<close>

definition bind :: "error + 'a \<Rightarrow> ('a \<Rightarrow> error + 'b) \<Rightarrow> error + 'b" where
  "bind m f = (case m of Inl e \<Rightarrow> Inl e | Inr x \<Rightarrow> f x)"

section \<open>The skiplist\<close>

definition NewSkiplist :: Skiplist where
  "NewSkiplist =
     \<lparr>height = 0, head = 0,
      nodes = [\<lparr>value' = zeroEntry, next' = replicate maxHeight None, prev = []\<rparr>]\<rparr>"

text \<open>
  The level of a new node: \<^verbatim>\<open>for n&1 == 1 { level++; n >>= 1 }\<close> counts the trailing
  one bits of the draw. The draw is not negative, which the guard \<open>0 < n\<close> records
  (an odd number that is not negative is positive).
\<close>

function level_of :: "int \<Rightarrow> nat" where
  "level_of n = (if 0 < n \<and> n mod 2 = 1 then Suc (level_of (n div 2)) else 0)"
  by pat_completeness auto
termination
  by (relation "measure nat") auto

declare level_of.simps [simp del]

text \<open>
  The inner loop of \<^verbatim>\<open>Insert\<close> at level \<open>i\<close>:
  \<^verbatim>\<open>for curr.next[i] != nil && e.V >= curr.next[i].value.V { curr = curr.next[i] }\<close>.
  The loop follows pointers, so it is bounded by fuel; running out of fuel is \<open>Diverge\<close>.
  With fuel beyond the number of nodes of the heap this happens only on a cyclic list,
  where the Go loop does not end either.
\<close>

fun search :: "nat \<Rightarrow> SkiplistNode list \<Rightarrow> nat \<Rightarrow> int \<Rightarrow> nat \<Rightarrow> error + nat" where
  "search 0 h i v cur = Inl Diverge"
| "search (Suc fuel) h i v cur =
     bind (get_next h cur i) (\<lambda>nx.
       case nx of
         None \<Rightarrow> Inr cur
       | Some b \<Rightarrow>
           bind (get_value h b) (\<lambda>bv.
             if v \<ge> V bv then search fuel h i v b else Inr cur))"

text \<open>
  The linking step of \<^verbatim>\<open>Insert\<close> at level \<open>i\<close>:
  \<^verbatim>\<open>
  node.next[i] = curr.next[i]
  if curr.next[i] != nil && curr.next[i].prev[i] != nil {
      curr.next[i].prev[i] = node
  }
  curr.next[i] = node
  node.prev[i] = curr
  \<close>
\<close>

definition link :: "SkiplistNode list \<Rightarrow> nat \<Rightarrow> nat \<Rightarrow> nat \<Rightarrow> error + SkiplistNode list" where
  "link h i cur node =
     bind (get_next h cur i) (\<lambda>nx.
     bind (set_next h node i nx) (\<lambda>h1.
     bind (case nx of
             None \<Rightarrow> Inr h1
           | Some b \<Rightarrow>
               bind (get_prev h1 b i) (\<lambda>bp.
                 if bp \<noteq> None then set_prev h1 b i (Some node) else Inr h1)) (\<lambda>h2.
     bind (set_next h2 cur i (Some node)) (\<lambda>h3.
     set_prev h3 node i (Some cur)))))"

text \<open>
  The outer loop \<^verbatim>\<open>for i := s.height; i >= 0; i--\<close>; the first argument is \<open>i + 1\<close>.
\<close>

fun insert_levels ::
  "nat \<Rightarrow> nat \<Rightarrow> int \<Rightarrow> nat \<Rightarrow> nat \<Rightarrow> SkiplistNode list \<Rightarrow> error + SkiplistNode list" where
  "insert_levels 0 level v node cur h = Inr h"
| "insert_levels (Suc i) level v node cur h =
     bind (search (Suc (length h)) h i v cur) (\<lambda>c.
       if i > level then insert_levels i level v node c h
       else bind (link h i c node) (\<lambda>h'. insert_levels i level v node c h'))"

text \<open>
  \<^verbatim>\<open>func (s *Skiplist) Insert(e Entry) *SkiplistNode\<close>. The new node is allocated at
  the end of the heap; the result is the generator, the skiplist and the node's address.
\<close>

definition Skiplist_Insert :: "Rand \<Rightarrow> Skiplist \<Rightarrow> Entry \<Rightarrow> error + (Rand \<times> Skiplist \<times> nat)" where
  "Skiplist_Insert r s e =
     (let n = fst (Int31 r);
          r' = snd (Int31 r);
          l0 = level_of n;
          hgt = (if l0 > height s then height s + 1 else height s);
          level = (if l0 > height s then height s + 1 else l0);
          node = length (nodes s);
          h = nodes s @ [\<lparr>value' = e, next' = replicate (level + 1) None,
                          prev = replicate (level + 1) None\<rparr>]
      in bind (insert_levels (Suc hgt) level (V e) node (head s) h) (\<lambda>h'.
           Inr (r', s\<lparr>height := hgt, nodes := h'\<rparr>, node)))"

text \<open>
  \<^verbatim>\<open>func (s *Skiplist) Remove(node *SkiplistNode)\<close>: the body of
  \<^verbatim>\<open>for i := range node.next\<close> at level \<open>i\<close>, and the loop over the levels
  \<open>0, 1, ...\<close> of the node.
\<close>

definition remove_level :: "SkiplistNode list \<Rightarrow> nat \<Rightarrow> nat \<Rightarrow> error + SkiplistNode list" where
  "remove_level h node i =
     bind (get_prev h node i) (\<lambda>p.
     bind (get_next h node i) (\<lambda>nx.
     bind (case p of None \<Rightarrow> Inr h | Some a \<Rightarrow> set_next h a i nx) (\<lambda>h1.
     bind (case nx of None \<Rightarrow> Inr h1 | Some b \<Rightarrow> set_prev h1 b i p) (\<lambda>h2.
     bind (set_next h2 node i None) (\<lambda>h3.
     set_prev h3 node i None)))))"

fun remove_levels :: "SkiplistNode list \<Rightarrow> nat \<Rightarrow> nat list \<Rightarrow> error + SkiplistNode list" where
  "remove_levels h node [] = Inr h"
| "remove_levels h node (i # is) =
     bind (remove_level h node i) (\<lambda>h'. remove_levels h' node is)"

definition Skiplist_Remove :: "Skiplist \<Rightarrow> nat \<Rightarrow> error + Skiplist" where
  "Skiplist_Remove s node =
     (if node < length (nodes s)
      then bind (remove_levels (nodes s) node [0 ..< length (next' (nodes s ! node))])
             (\<lambda>h'. Inr (s\<lparr>nodes := h'\<rparr>))
      else Inl Panic)"

section \<open>The summary\<close>

text \<open>
  The accuracy is the constant \<^verbatim>\<open>epsilon = 0.01\<close>. The code computes its error
  budgets in \<^verbatim>\<open>float64\<close>: \<^verbatim>\<open>int(2 * epsilon * float64(s.N))\<close> in
  \<^verbatim>\<open>Insert\<close> and \<^verbatim>\<open>compress\<close>, \<^verbatim>\<open>int(epsilon * float64(s.N))\<close> in
  \<^verbatim>\<open>Quantile\<close>; the conversion to \<^verbatim>\<open>int\<close> truncates towards zero. The doubles
  nearest to 0.02 and 0.01 exceed them by a relative \<open>2.1 * 10^-17\<close>, less than half a
  unit in the last place, so for \<open>|N| < 2^52\<close> the products truncate to the integer
  quotients by 50 and by 100, which is what the model computes. The cadence
  \<^verbatim>\<open>int(1.0/float64(2.0*epsilon))\<close> is the constant 50.
\<close>

definition trunc_div :: "int \<Rightarrow> int \<Rightarrow> int" where
  "trunc_div a b = (if 0 \<le> a then a div b else - ((- a) div b))"

definition eps2N :: "int \<Rightarrow> int" where
  "eps2N n = trunc_div n 50"

definition eps1N :: "int \<Rightarrow> int" where
  "eps1N n = trunc_div n 100"

definition NewSummary :: Summary where
  "NewSummary = \<lparr>data = Some NewSkiplist, EncodedData = [], N = 0\<rparr>"

text \<open>
  The loop of \<^verbatim>\<open>compress\<close>:
  \<^verbatim>\<open>for elt := s.data.head.next[0]; elt != nil && elt.next[0] != nil; { ...; elt = next }\<close>.
  Each round draws \<^verbatim>\<open>changeSample := rand.Intn(1) == 0\<close>. The fuel bounds the pointer
  chase as in \<open>search\<close>.
\<close>

fun compress_loop ::
  "nat \<Rightarrow> int \<Rightarrow> Rand \<Rightarrow> Skiplist \<Rightarrow> int \<Rightarrow> nat option \<Rightarrow> error + (Rand \<times> Skiplist)" where
  "compress_loop 0 epsN r sl missing elt = Inl Diverge"
| "compress_loop (Suc fuel) epsN r sl missing elt =
     (case elt of
        None \<Rightarrow> Inr (r, sl)
      | Some a \<Rightarrow>
          bind (get_next (nodes sl) a 0) (\<lambda>nx.
            case nx of
              None \<Rightarrow> Inr (r, sl)
            | Some b \<Rightarrow>
                bind (get_value (nodes sl) a) (\<lambda>t.
                bind (get_value (nodes sl) b) (\<lambda>nt.
                  let changeSample = (fst (Intn 1 r) = 0);
                      r1 = snd (Intn 1 r)
                  in
                  if V t = V nt then
                    let missing1 = missing + G nt;
                        nt1 = nt\<lparr>Delta := Delta nt + missing1, G := G t,
                                 Samples := (if changeSample then Samples t else Samples nt)\<rparr>
                    in bind (set_value (nodes sl) b nt1) (\<lambda>h1.
                       bind (Skiplist_Remove (sl\<lparr>nodes := h1\<rparr>) a) (\<lambda>sl2.
                         compress_loop fuel epsN r1 sl2 missing1 (Some b)))
                  else if G t + G nt + missing + Delta nt < epsN then
                    let nt1 = nt\<lparr>G := G nt + (G t + missing),
                                 Samples := (if changeSample then Samples t else Samples nt)\<rparr>
                    in bind (set_value (nodes sl) b nt1) (\<lambda>h1.
                       bind (Skiplist_Remove (sl\<lparr>nodes := h1\<rparr>) a) (\<lambda>sl2.
                         compress_loop fuel epsN r1 sl2 0 (Some b)))
                  else
                    let nt1 = nt\<lparr>G := G nt + missing\<rparr>
                    in bind (set_value (nodes sl) b nt1) (\<lambda>h1.
                         compress_loop fuel epsN r1 (sl\<lparr>nodes := h1\<rparr>) 0 (Some b))))))"

definition Summary_compress :: "Rand \<Rightarrow> Summary \<Rightarrow> error + (Rand \<times> Summary)" where
  "Summary_compress r s =
     (case data s of
        None \<Rightarrow> Inl Panic
      | Some sl \<Rightarrow>
          bind (get_next (nodes sl) (head sl) 0) (\<lambda>first.
          bind (compress_loop (Suc (length (nodes sl))) (eps2N (N s)) r sl 0 first) (\<lambda>(r', sl').
            Inr (r', s\<lparr>data := Some sl'\<rparr>))))"

text \<open>
  \<^verbatim>\<open>func (s *Summary) Insert(v int64, t uint64)\<close>. The test
  \<^verbatim>\<open>eptr.prev[0] != s.data.head && eptr.next[0] != nil\<close> reads \<^verbatim>\<open>next[0]\<close> only
  when its first half holds.
\<close>

definition Summary_Insert :: "Rand \<Rightarrow> Summary \<Rightarrow> int \<Rightarrow> nat \<Rightarrow> error + (Rand \<times> Summary)" where
  "Summary_Insert r s v t =
     (case data s of
        None \<Rightarrow> Inl Panic
      | Some sl \<Rightarrow>
          bind (Skiplist_Insert r sl \<lparr>V = v, G = 1, Delta = 0, Samples = [t]\<rparr>) (\<lambda>(r1, sl1, eptr).
            let n1 = N s + 1 in
            bind (get_prev (nodes sl1) eptr 0) (\<lambda>p.
            bind (if p \<noteq> Some (head sl1) then get_next (nodes sl1) eptr 0 else Inr None) (\<lambda>nx.
            bind (if p \<noteq> Some (head sl1) \<and> nx \<noteq> None
                  then bind (get_value (nodes sl1) eptr) (\<lambda>e.
                         set_value (nodes sl1) eptr (e\<lparr>Delta := eps2N n1\<rparr>))
                  else Inr (nodes sl1)) (\<lambda>h2.
              let s1 = s\<lparr>data := Some (sl1\<lparr>nodes := h2\<rparr>), N := n1\<rparr> in
              if n1 mod 50 = 0 then Summary_compress r1 s1 else Inr (r1, s1))))))"

text \<open>
  \<^verbatim>\<open>func (s *Summary) Quantile(q float64) (int64, []uint64)\<close>. The rank is
  \<^verbatim>\<open>r := int(q*float64(s.N) + 0.5)\<close>; the model takes \<open>q\<close> as a real number and
  truncates the exact value, which is what the code computes at \<open>q = 0\<close>, \<open>1/2\<close> and
  \<open>1\<close>, and up to the rounding of the product elsewhere. Leaving the loop without a
  result is the \<^verbatim>\<open>panic("not reached")\<close>.

  The code rounds the product and the sum to \<^verbatim>\<open>float64\<close>. Neither rounds when
  \<open>q = k / 2^j\<close> with \<open>0 \<le> k \<le> 2^j\<close>, \<open>j \<le> 40\<close> and \<open>0 \<le> N < 2^11\<close>: the product
  \<open>k * N / 2^j\<close> and the sum \<open>(2 * k * N + 2^j) / 2^(j+1)\<close> have numerators below \<open>2^53\<close>,
  so both are doubles and \<open>rank_of\<close> is the rank of the code. That is the range
  \<open>dyadic q\<close> below, and the range in which ranks are stated in this theory. For other
  \<open>q\<close> the two can differ by one: at the double nearest to \<open>1/6\<close> and \<open>N = 3\<close> the
  product rounds to \<open>1/2\<close> and the code's rank is 1, where the exact value truncates to 0.
\<close>

definition trunc :: "real \<Rightarrow> int" where
  "trunc x = (if 0 \<le> x then \<lfloor>x\<rfloor> else \<lceil>x\<rceil>)"

definition rank_of :: "real \<Rightarrow> int \<Rightarrow> int" where
  "rank_of q n = trunc (q * of_int n + 1 / 2)"


fun quantile_loop ::
  "nat \<Rightarrow> SkiplistNode list \<Rightarrow> int \<Rightarrow> int \<Rightarrow> int \<Rightarrow> nat option \<Rightarrow> error + (int \<times> nat list)" where
  "quantile_loop 0 h r epsN rmin elt = Inl Diverge"
| "quantile_loop (Suc fuel) h r epsN rmin elt =
     (case elt of
        None \<Rightarrow> Inl Panic
      | Some a \<Rightarrow>
          bind (get_value h a) (\<lambda>t.
            let rmin1 = rmin + G t in
            bind (get_next h a 0) (\<lambda>n.
              case n of
                None \<Rightarrow> Inr (V t, Samples t)
              | Some b \<Rightarrow>
                  bind (get_value h b) (\<lambda>nv.
                    if r + epsN < rmin1 + G nv + Delta nv then
                      (if r + epsN < rmin1 + G nv then Inr (V t, Samples t)
                       else Inr (V nv, Samples nv))
                    else quantile_loop fuel h r epsN rmin1 n))))"

definition Quantile_rank :: "Summary \<Rightarrow> int \<Rightarrow> error + (int \<times> nat list)" where
  "Quantile_rank s r =
     (case data s of
        None \<Rightarrow> Inl Panic
      | Some sl \<Rightarrow>
          bind (get_next (nodes sl) (head sl) 0) (\<lambda>first.
            quantile_loop (Suc (length (nodes sl))) (nodes sl) r (eps1N (N s)) 0 first))"

definition Summary_Quantile :: "Summary \<Rightarrow> real \<Rightarrow> error + (int \<times> nat list)" where
  "Summary_Quantile s q = Quantile_rank s (rank_of q (N s))"



text \<open>
  \<^verbatim>\<open>func (s *Summary) Merge(s2 *Summary)\<close>, for two different summaries. The loop
  starts at the head node of \<^verbatim>\<open>s2\<close>: \<^verbatim>\<open>curElt := s2.data.head\<close>.

  The two summaries are passed by value, so the loop walks the store of \<open>s2\<close> as it
  was at the call. That is the code when \<open>s\<close> and \<open>s2\<close> are different objects. The
  call \<^verbatim>\<open>s.Merge(s)\<close> walks the list it is inserting into and is outside this model.
\<close>

fun merge_loop ::
  "nat \<Rightarrow> SkiplistNode list \<Rightarrow> Rand \<Rightarrow> Skiplist \<Rightarrow> nat option \<Rightarrow> error + (Rand \<times> Skiplist)" where
  "merge_loop 0 h2 r sl curElt = Inl Diverge"
| "merge_loop (Suc fuel) h2 r sl curElt =
     (case curElt of
        None \<Rightarrow> Inr (r, sl)
      | Some c \<Rightarrow>
          bind (get_value h2 c) (\<lambda>e.
          bind (Skiplist_Insert r sl e) (\<lambda>(r1, sl1, node).
          bind (get_next h2 c 0) (\<lambda>nx.
            merge_loop fuel h2 r1 sl1 nx))))"

definition Summary_Merge :: "Rand \<Rightarrow> Summary \<Rightarrow> Summary \<Rightarrow> error + (Rand \<times> Summary)" where
  "Summary_Merge r s s2 =
     (if N s2 = 0 \<or> data s2 = None then Inr (r, s)
      else
        case data s2 of
          None \<Rightarrow> Inr (r, s)
        | Some sl2 \<Rightarrow>
            (case data s of
               None \<Rightarrow> Inl Panic
             | Some sl \<Rightarrow>
                 bind (merge_loop (Suc (length (nodes sl2))) (nodes sl2) r sl (Some (head sl2)))
                   (\<lambda>(r1, sl1).
                     Summary_compress r1 (s\<lparr>N := N s + N s2, data := Some sl1\<rparr>))))"

section \<open>Serialisation\<close>

text \<open>
  \<^verbatim>\<open>MarshalJSON\<close> flattens the store into \<^verbatim>\<open>EncodedData\<close> and encodes the object
  \<^verbatim>\<open>{"data": ..., "n": ...}\<close>; \<^verbatim>\<open>UnmarshalJSON\<close> decodes the two fields and inserts
  every decoded entry into a new skiplist. The JSON text itself is the standard library's:
  the model takes the decoded object, a \<open>Wire\<close>, as the wire form, so a malformed text is
  outside it. The flattening loop starts at the head node:
  \<^verbatim>\<open>curr := s.data.head; for curr != nil { ...append(..., curr.value); curr = curr.next[0] }\<close>.
\<close>

record Wire =
  wire_data :: "Entry list"
  wire_n :: int

fun flatten_loop ::
  "nat \<Rightarrow> SkiplistNode list \<Rightarrow> nat option \<Rightarrow> Entry list \<Rightarrow> error + Entry list" where
  "flatten_loop 0 h cur encoded = Inl Diverge"
| "flatten_loop (Suc fuel) h cur encoded =
     (case cur of
        None \<Rightarrow> Inr encoded
      | Some c \<Rightarrow>
          bind (get_value h c) (\<lambda>e.
          bind (get_next h c 0) (\<lambda>nx.
            flatten_loop fuel h nx (encoded @ [e]))))"

definition Summary_MarshalJSON :: "Summary \<Rightarrow> error + Wire" where
  "Summary_MarshalJSON s =
     (case data s of
        None \<Rightarrow> Inl Panic
      | Some sl \<Rightarrow>
          bind (flatten_loop (Suc (length (nodes sl))) (nodes sl) (Some (head sl)) []) (\<lambda>es.
            Inr \<lparr>wire_data = es, wire_n = N s\<rparr>))"

fun insert_all :: "Rand \<Rightarrow> Skiplist \<Rightarrow> Entry list \<Rightarrow> error + (Rand \<times> Skiplist)" where
  "insert_all r sl [] = Inr (r, sl)"
| "insert_all r sl (e # es) =
     bind (Skiplist_Insert r sl e) (\<lambda>(r1, sl1, node). insert_all r1 sl1 es)"

definition Summary_UnmarshalJSON :: "Rand \<Rightarrow> Wire \<Rightarrow> error + (Rand \<times> Summary)" where
  "Summary_UnmarshalJSON r w =
     bind (insert_all r NewSkiplist (wire_data w)) (\<lambda>(r1, sl).
       Inr (r1, \<lparr>data = Some sl, EncodedData = wire_data w, N = wire_n w\<rparr>))"

section \<open>Histories\<close>

text \<open>A sequence of \<^verbatim>\<open>Insert(v, t)\<close> calls on one summary.\<close>

fun Inserts :: "Rand \<Rightarrow> Summary \<Rightarrow> (int \<times> nat) list \<Rightarrow> error + (Rand \<times> Summary)" where
  "Inserts r s [] = Inr (r, s)"
| "Inserts r s (vt # vts) =
     bind (Summary_Insert r s (fst vt) (snd vt)) (\<lambda>(r1, s1). Inserts r1 s1 vts)"

text \<open>The entries of the store in base-level order, read as \<^verbatim>\<open>Quantile\<close> walks them.\<close>

fun walk :: "nat \<Rightarrow> SkiplistNode list \<Rightarrow> nat option \<Rightarrow> error + nat list" where
  "walk 0 h p = Inl Diverge"
| "walk (Suc fuel) h p =
     (case p of
        None \<Rightarrow> Inr []
      | Some a \<Rightarrow> bind (get_next h a 0) (\<lambda>nx. bind (walk fuel h nx) (\<lambda>as. Inr (a # as))))"

definition base :: "Skiplist \<Rightarrow> error + nat list" where
  "base sl =
     bind (get_next (nodes sl) (head sl) 0) (\<lambda>first.
       walk (Suc (length (nodes sl))) (nodes sl) first)"

definition entries :: "Skiplist \<Rightarrow> error + Entry list" where
  "entries sl = bind (base sl) (\<lambda>as. Inr (map (\<lambda>a. value' (nodes sl ! a)) as))"

section \<open>Well-formed skiplists\<close>

text \<open>
  Projections of a heap: the pointers of level \<open>i\<close>, the lengths of the two pointer
  slices of a node, and its entry.
\<close>

definition nx :: "SkiplistNode list \<Rightarrow> nat \<Rightarrow> nat \<Rightarrow> nat option" where
  "nx h i a = next' (h ! a) ! i"

definition pv :: "SkiplistNode list \<Rightarrow> nat \<Rightarrow> nat \<Rightarrow> nat option" where
  "pv h i a = prev (h ! a) ! i"

definition lv :: "SkiplistNode list \<Rightarrow> nat \<Rightarrow> nat" where
  "lv h a = length (next' (h ! a))"

definition lp :: "SkiplistNode list \<Rightarrow> nat \<Rightarrow> nat" where
  "lp h a = length (prev (h ! a))"

definition vl :: "SkiplistNode list \<Rightarrow> nat \<Rightarrow> Entry" where
  "vl h a = value' (h ! a)"

text \<open>
  \<open>lseg h i a xs\<close>: at level \<open>i\<close> the nodes \<open>xs\<close> follow the node \<open>a\<close>, each linked
  forwards from and backwards to its predecessor. \<open>dll\<close> adds that the list ends there.
\<close>

fun lseg :: "SkiplistNode list \<Rightarrow> nat \<Rightarrow> nat \<Rightarrow> nat list \<Rightarrow> bool" where
  "lseg h i a [] = True"
| "lseg h i a (x # xs) =
     (nx h i a = Some x \<and> x < length h \<and> i < lv h x \<and> i < lp h x \<and> pv h i x = Some a \<and>
      lseg h i x xs)"

definition dll :: "SkiplistNode list \<Rightarrow> nat \<Rightarrow> nat \<Rightarrow> nat list \<Rightarrow> bool" where
  "dll h i a xs = (lseg h i a xs \<and> nx h i (last (a # xs)) = None)"

text \<open>
  \<open>frame h h' i\<close>: the heap \<open>h'\<close> differs from \<open>h\<close> in pointers of level \<open>i\<close> only.
\<close>

definition frame :: "SkiplistNode list \<Rightarrow> SkiplistNode list \<Rightarrow> nat \<Rightarrow> bool" where
  "frame h h' i =
     (length h' = length h \<and> lv h' = lv h \<and> lp h' = lp h \<and> vl h' = vl h \<and>
      (\<forall>j. j \<noteq> i \<longrightarrow> nx h' j = nx h j \<and> pv h' j = pv h j))"

text \<open>
  \<open>nodes_ok h B\<close>: the head is node 0 with \<open>maxHeight\<close> forward pointers, and \<open>B\<close> is a
  list of different nodes of the heap, each with as many backward as forward pointers and
  at least one of each.
\<close>

definition nodes_ok :: "SkiplistNode list \<Rightarrow> nat list \<Rightarrow> bool" where
  "nodes_ok h B =
     (0 < length h \<and> lv h 0 = maxHeight \<and> distinct B \<and> 0 \<notin> set B \<and>
      list_all (\<lambda>x. x < length h \<and> 0 < lv h x \<and> lp h x = lv h x) B)"

text \<open>
  \<open>wf sl B\<close>: the skiplist \<open>sl\<close> holds the nodes \<open>B\<close>, in this order on the base level;
  the list of level \<open>i\<close> is made of the nodes of \<open>B\<close> with more than \<open>i\<close> pointers, in
  the same order; no node is higher than the skiplist; the values ascend along \<open>B\<close>;
  the head node holds the zero entry.
\<close>

definition wf :: "Skiplist \<Rightarrow> nat list \<Rightarrow> bool" where
  "wf sl B =
     (head sl = 0 \<and> height sl < maxHeight \<and> vl (nodes sl) 0 = zeroEntry \<and>
      nodes_ok (nodes sl) B \<and>
      list_all (\<lambda>x. lv (nodes sl) x \<le> Suc (height sl)) B \<and>
      list_all (\<lambda>i. dll (nodes sl) i 0 (filter (\<lambda>x. i < lv (nodes sl) x) B)) [0 ..< maxHeight] \<and>
      sorted (map (\<lambda>x. V (vl (nodes sl) x)) B))"

text \<open>\<open>holds s es\<close>: the store of the summary \<open>s\<close> is a well-formed skiplist with the entries \<open>es\<close>.\<close>

definition holds :: "Summary \<Rightarrow> Entry list \<Rightarrow> bool" where
  "holds s es =
     (case data s of
        None \<Rightarrow> False
      | Some sl \<Rightarrow>
          (case base sl of
             Inl e \<Rightarrow> False
           | Inr B \<Rightarrow> wf sl B \<and> es = map (vl (nodes sl)) B))"

text \<open>\<open>held s es k\<close>: moreover the skiplist is at most \<open>k\<close> high.\<close>

definition held :: "Summary \<Rightarrow> Entry list \<Rightarrow> nat \<Rightarrow> bool" where
  "held s es k =
     (holds s es \<and> (case data s of None \<Rightarrow> False | Some sl \<Rightarrow> height sl \<le> k))"

text \<open>
  \<open>levels_ok r\<close>: no draw of the generator gives a level of \<open>maxHeight\<close> or more.
  Only the draw \<open>2^31 - 1\<close>, with its 31 one bits, does: then \<^verbatim>\<open>Insert\<close> on a
  skiplist of height 30 raises the height to 31 and indexes the head's 31 pointers out of
  range.
\<close>

definition levels_ok :: "Rand \<Rightarrow> bool" where
  "levels_ok r = (\<forall>k. level_of (src r k mod 2 ^ 31) < maxHeight)"

section \<open>The store as a list of entries\<close>

text \<open>
  What the operations of the summary do to the list of entries of the store. The
  refinement lemmas below show that the code, run on a well-formed skiplist, computes
  these functions, whatever levels the generator draws.
\<close>

text \<open>\<^verbatim>\<open>Skiplist.Insert\<close>: the entry goes behind the entries with a value up to its own.\<close>

definition place :: "Entry \<Rightarrow> Entry list \<Rightarrow> Entry list" where
  "place e es = filter (\<lambda>x. V x \<le> V e) es @ e # filter (\<lambda>x. \<not> V x \<le> V e) es"

text \<open>
  \<^verbatim>\<open>compress\<close>, from the entry \<open>t\<close> at the cursor on; \<^verbatim>\<open>changeSample\<close> is true
  (the draw \<^verbatim>\<open>rand.Intn(1)\<close> is 0).
\<close>

fun list_compress :: "int \<Rightarrow> int \<Rightarrow> Entry list \<Rightarrow> Entry list" where
  "list_compress epsN missing (t # nt # rest) =
     (if V t = V nt then
        list_compress epsN (missing + G nt)
          (nt\<lparr>Delta := Delta nt + (missing + G nt), G := G t, Samples := Samples t\<rparr> # rest)
      else if G t + G nt + missing + Delta nt < epsN then
        list_compress epsN 0 (nt\<lparr>G := G nt + (G t + missing), Samples := Samples t\<rparr> # rest)
      else
        t # list_compress epsN 0 (nt\<lparr>G := G nt + missing\<rparr> # rest))"
| "list_compress epsN missing es = es"

text \<open>
  \<^verbatim>\<open>Insert(v, t)\<close> on a summary that counts \<open>n\<close> observations: the new entry goes
  behind the entries with a value up to \<open>v\<close>.
\<close>

definition list_Insert :: "int \<Rightarrow> Entry list \<Rightarrow> int \<Rightarrow> nat \<Rightarrow> Entry list" where
  "list_Insert n es v t =
     (let pre = filter (\<lambda>x. V x \<le> v) es;
          post = filter (\<lambda>x. \<not> V x \<le> v) es;
          e = \<lparr>V = v, G = 1,
               Delta = (if pre \<noteq> [] \<and> post \<noteq> [] then eps2N (n + 1) else 0),
               Samples = [t]\<rparr>;
          es1 = pre @ e # post
      in if (n + 1) mod 50 = 0 then list_compress (eps2N (n + 1)) 0 es1 else es1)"

fun list_Inserts :: "int \<Rightarrow> Entry list \<Rightarrow> (int \<times> nat) list \<Rightarrow> Entry list" where
  "list_Inserts n es [] = es"
| "list_Inserts n es (vt # vts) = list_Inserts (n + 1) (list_Insert n es (fst vt) (snd vt)) vts"

fun list_Quantile :: "int \<Rightarrow> int \<Rightarrow> int \<Rightarrow> Entry list \<Rightarrow> error + (int \<times> nat list)" where
  "list_Quantile r epsN rmin [] = Inl Panic"
| "list_Quantile r epsN rmin [t] = Inr (V t, Samples t)"
| "list_Quantile r epsN rmin (t # nv # rest) =
     (if r + epsN < rmin + G t + G nv + Delta nv then
        (if r + epsN < rmin + G t + G nv then Inr (V t, Samples t) else Inr (V nv, Samples nv))
      else list_Quantile r epsN (rmin + G t) (nv # rest))"


text \<open>A generator whose draws are all 0: every new node gets level 0.\<close>

definition zeroRand :: Rand where
  "zeroRand = \<lparr>src = (\<lambda>k. 0), pos = 0\<rparr>"

text \<open>
  \<^verbatim>\<open>Merge\<close>, \<^verbatim>\<open>MarshalJSON\<close> and \<^verbatim>\<open>UnmarshalJSON\<close>: the walks of the first two
  start at the head node, whose entry is the zero entry.
\<close>

definition list_Merge :: "int \<Rightarrow> Entry list \<Rightarrow> int \<Rightarrow> Entry list \<Rightarrow> Entry list" where
  "list_Merge n es n2 es2 =
     (if n2 = 0 then es
      else list_compress (eps2N (n + n2)) 0 (foldl (\<lambda>acc e. place e acc) es (zeroEntry # es2)))"

definition list_Marshal :: "Entry list \<Rightarrow> Entry list" where
  "list_Marshal es = zeroEntry # es"

definition list_Unmarshal :: "Entry list \<Rightarrow> Entry list" where
  "list_Unmarshal ws = foldl (\<lambda>acc e. place e acc) [] ws"

section \<open>Rank bookkeeping\<close>

text \<open>
  \<open>sumG es\<close> is the sum of the \<^verbatim>\<open>G\<close> fields, the lower rank bound of the last
  entry. \<open>rmaxs b es\<close> lists, for every entry, the upper rank bound that
  \<^verbatim>\<open>Quantile\<close> computes for it: the sum of \<^verbatim>\<open>G\<close> up to the entry plus its
  \<^verbatim>\<open>Delta\<close>, counted from \<open>b\<close>.
\<close>

fun rmaxs :: "int \<Rightarrow> Entry list \<Rightarrow> int list" where
  "rmaxs b [] = []"
| "rmaxs b (e # es) = (b + G e + Delta e) # rmaxs (b + G e) es"

definition sumG :: "Entry list \<Rightarrow> int" where
  "sumG es = sum_list (map G es)"

text \<open>
  \<open>counted n es\<close>: the store of a summary of \<open>n\<close> observations is in ascending order,
  every entry counts at least one observation, the entries count at most \<open>n\<close>
  observations together, and no upper rank bound exceeds \<open>n + n div 100\<close>.
\<close>

definition counted :: "int \<Rightarrow> Entry list \<Rightarrow> bool" where
  "counted n es =
     (sorted (map V es) \<and> list_all (\<lambda>e. 1 \<le> G e \<and> 0 \<le> Delta e) es \<and> sumG es \<le> n \<and>
      list_all (\<lambda>x. x \<le> n + n div 100) (rmaxs 0 es))"

section \<open>Test data (quantile/summary\_test.go)\<close>



text \<open>
  The true ranks of a value among the inserted values \<open>vs\<close>: its positions, counted
  from 1, in the ascending sequence of all of them.
\<close>

definition ranks :: "int list \<Rightarrow> int \<Rightarrow> nat list" where
  "ranks vs v = filter (\<lambda>i. sort vs ! (i - 1) = v) [1 ..< Suc (length vs)]"


text \<open>
  The rank interval of every entry, as the summary accounts for it: the entry's value,
  the sum of \<^verbatim>\<open>G\<close> up to and including the entry, and that sum plus the entry's
  \<^verbatim>\<open>Delta\<close>. \<open>bracketed vs es\<close>: every entry of \<open>es\<close> has a true rank among the
  inserted values \<open>vs\<close> inside its interval.
\<close>

fun brackets :: "int \<Rightarrow> Entry list \<Rightarrow> (int \<times> int \<times> int) list" where
  "brackets b [] = []"
| "brackets b (e # es) = (V e, b + G e, b + G e + Delta e) # brackets (b + G e) es"

definition bracketed :: "int list \<Rightarrow> Entry list \<Rightarrow> bool" where
  "bracketed vs es =
     list_all (\<lambda>(v, lo, hi). list_ex (\<lambda>k. lo \<le> int k \<and> int k \<le> hi) (ranks vs v))
       (brackets 0 es)"

text \<open>Histories that repeat a value, used below.\<close>

definition sevens :: "(int \<times> nat) list" where
  "sevens = [(1, 0), (1000, 1)] @ map (\<lambda>i. (7, i)) [2 ..< 50]"


definition descending :: "nat \<Rightarrow> (int \<times> nat) list" where
  "descending n = map (\<lambda>i. (int n - int i, i)) [0 ..< n]"


section \<open>The skiplist operations keep the skiplist well formed\<close>

lemma bind_Inr [simp]: "bind (Inr x) f = f x"
  by (simp add: bind_def)

lemma bind_Inl [simp]: "bind (Inl e) f = Inl e"
  by (simp add: bind_def)

lemma bind_eq_Inr: "(bind m f = Inr y) = (\<exists>x. m = Inr x \<and> f x = Inr y)"
  by (cases m) auto

lemma length_upd [simp]:
  "length (upd_next h a i p) = length h"
  "length (upd_prev h a i p) = length h"
  "length (upd_value h a e) = length h"
  by (simp_all add: upd_next_def upd_prev_def upd_value_def)

lemma nth_upd_next:
  "upd_next h a i p ! b =
     (if b = a \<and> a < length h then (h ! a)\<lparr>next' := (next' (h ! a))[i := p]\<rparr> else h ! b)"
  by (cases "a < length h") (auto simp: upd_next_def list_update_beyond)

lemma nth_upd_prev:
  "upd_prev h a i p ! b =
     (if b = a \<and> a < length h then (h ! a)\<lparr>prev := (prev (h ! a))[i := p]\<rparr> else h ! b)"
  by (cases "a < length h") (auto simp: upd_prev_def list_update_beyond)

lemma nth_upd_value:
  "upd_value h a e ! b = (if b = a \<and> a < length h then (h ! a)\<lparr>value' := e\<rparr> else h ! b)"
  by (cases "a < length h") (auto simp: upd_value_def list_update_beyond)

lemmas nth_upds = nth_upd_next nth_upd_prev nth_upd_value

lemma lv_upd [simp]:
  "lv (upd_next h a i p) = lv h"
  "lv (upd_prev h a i p) = lv h"
  "lv (upd_value h a e) = lv h"
  by (simp_all add: fun_eq_iff lv_def nth_upds)

lemma lp_upd [simp]:
  "lp (upd_next h a i p) = lp h"
  "lp (upd_prev h a i p) = lp h"
  "lp (upd_value h a e) = lp h"
  by (simp_all add: fun_eq_iff lp_def nth_upds)

lemma vl_upd [simp]:
  "vl (upd_next h a i p) = vl h"
  "vl (upd_prev h a i p) = vl h"
  by (simp_all add: fun_eq_iff vl_def nth_upds)

lemma vl_upd_value [simp]:
  "a < length h \<Longrightarrow> vl (upd_value h a e) = (vl h)(a := e)"
  by (simp add: fun_eq_iff vl_def nth_upds)

lemma nx_upd_other [simp]:
  "nx (upd_prev h a i p) = nx h"
  "nx (upd_value h a e) = nx h"
  by (simp_all add: fun_eq_iff nx_def nth_upds)

lemma pv_upd_other [simp]:
  "pv (upd_next h a i p) = pv h"
  "pv (upd_value h a e) = pv h"
  by (simp_all add: fun_eq_iff pv_def nth_upds)

lemma nx_upd_next:
  "a < length h \<Longrightarrow> i < lv h a \<Longrightarrow>
   nx (upd_next h a i p) j = (if j = i then (nx h i)(a := p) else nx h j)"
  by (auto simp: fun_eq_iff nx_def lv_def nth_upds nth_list_update)

lemma pv_upd_prev:
  "a < length h \<Longrightarrow> i < lp h a \<Longrightarrow>
   pv (upd_prev h a i p) j = (if j = i then (pv h i)(a := p) else pv h j)"
  by (auto simp: fun_eq_iff pv_def lp_def nth_upds nth_list_update)

lemma get_next_eq: "get_next h a i = (if a < length h \<and> i < lv h a then Inr (nx h i a) else Inl Panic)"
  by (simp add: get_next_def lv_def nx_def)

lemma get_prev_eq: "get_prev h a i = (if a < length h \<and> i < lp h a then Inr (pv h i a) else Inl Panic)"
  by (simp add: get_prev_def lp_def pv_def)

lemma get_value_eq: "get_value h a = (if a < length h then Inr (vl h a) else Inl Panic)"
  by (simp add: get_value_def vl_def)

lemma set_next_eq: "set_next h a i p = (if a < length h \<and> i < lv h a then Inr (upd_next h a i p) else Inl Panic)"
  by (simp add: set_next_def lv_def)

lemma set_prev_eq: "set_prev h a i p = (if a < length h \<and> i < lp h a then Inr (upd_prev h a i p) else Inl Panic)"
  by (simp add: set_prev_def lp_def)

lemma lseg_append:
  "lseg h i a (xs @ ys) = (lseg h i a xs \<and> lseg h i (last (a # xs)) ys)"
  by (induction xs arbitrary: a) auto

lemma lseg_cong:
  "length h' = length h \<Longrightarrow> lv h' = lv h \<Longrightarrow> lp h' = lp h \<Longrightarrow>
   (\<forall>x\<in>set (butlast (a # xs)). nx h' i x = nx h i x) \<Longrightarrow>
   (\<forall>x\<in>set xs. pv h' i x = pv h i x) \<Longrightarrow>
   lseg h' i a xs = lseg h i a xs"
  by (induction xs arbitrary: a) auto

lemma lseg_bounds: "lseg h i a xs \<Longrightarrow> x \<in> set xs \<Longrightarrow> x < length h \<and> i < lv h x \<and> i < lp h x"
  by (induction xs arbitrary: a) auto

lemma search_lseg:
  "lseg h i c (C1 @ C2) \<Longrightarrow> c < length h \<Longrightarrow> i < lv h c \<Longrightarrow>
   \<forall>x\<in>set C1. V (vl h x) \<le> v \<Longrightarrow>
   (case C2 of [] \<Rightarrow> nx h i (last (c # C1)) = None | y # ys \<Rightarrow> \<not> V (vl h y) \<le> v) \<Longrightarrow>
   length C1 < fuel \<Longrightarrow>
   search fuel h i v c = Inr (last (c # C1))"
proof (induction C1 arbitrary: c fuel)
  case Nil
  then obtain f where f: "fuel = Suc f" by (cases fuel) auto
  show ?case
  proof (cases C2)
    case Nil
    with Nil.prems show ?thesis by (simp add: f get_next_eq)
  next
    case (Cons y ys)
    with Nil.prems show ?thesis by (simp add: f get_next_eq get_value_eq)
  qed
next
  case (Cons x C1)
  then obtain f where f: "fuel = Suc f" by (cases fuel) auto
  from Cons.prems have step: "nx h i c = Some x" "x < length h" "i < lv h x" "lseg h i x (C1 @ C2)"
    by auto
  have "search f h i v x = Inr (last (x # C1))"
    using Cons.prems step by (intro Cons.IH) (auto simp: f split: list.splits)
  then show ?case
    using Cons.prems step by (simp add: f get_next_eq get_value_eq)
qed

lemma last_in_set_cons: "last (a # xs) = a \<or> last (a # xs) \<in> set xs"
  by (cases xs) auto

lemma butlast_neq_last:
  "distinct (a # xs) \<Longrightarrow> x \<in> set (butlast (a # xs)) \<Longrightarrow> x \<noteq> last (a # xs)"
proof -
  assume d: "distinct (a # xs)" and x: "x \<in> set (butlast (a # xs))"
  have "butlast (a # xs) @ [last (a # xs)] = a # xs"
    by (rule append_butlast_last_id) simp
  with d have "distinct (butlast (a # xs) @ [last (a # xs)])" by simp
  with x show ?thesis by auto
qed

lemma last_append_cons: "last (a # xs @ ys) = last (last (a # xs) # ys)"
  by (cases ys) auto

lemma link_dll:
  assumes d: "dll h i 0 (L1 @ L2)" and dist: "distinct (L1 @ L2)" and z: "0 \<notin> set (L1 @ L2)"
    and nd: "nd \<notin> set (L1 @ L2)" "nd \<noteq> 0" "nd < length h" "i < lv h nd" "i < lp h nd"
    and hd: "0 < length h" "i < lv h 0"
  shows "\<exists>h'. link h i (last (0 # L1)) nd = Inr h' \<and> dll h' i 0 (L1 @ nd # L2) \<and> frame h h' i"
proof -
  define c where "c = last (0 # L1)"
  have seg1: "lseg h i 0 L1" and seg2: "lseg h i c L2"
    using d by (auto simp: dll_def lseg_append c_def)
  have endp: "nx h i (last (c # L2)) = None"
  proof -
    from d have "nx h i (last (0 # L1 @ L2)) = None"
      unfolding dll_def by (rule conjunct2)
    then show ?thesis by (simp only: last_append_cons c_def)
  qed
  have c_in: "c = 0 \<or> c \<in> set L1"
    unfolding c_def by (rule last_in_set_cons)
  have cb: "c < length h" "i < lv h c"
    using c_in hd lseg_bounds [OF seg1] by auto
  have c_nd: "c \<noteq> nd" using c_in nd by auto
  have c_L2: "c \<notin> set L2" using c_in dist z by auto
  have bl1: "\<And>x. x \<in> set (butlast (0 # L1)) \<Longrightarrow> x \<noteq> c \<and> x \<noteq> nd"
  proof -
    fix x assume x: "x \<in> set (butlast (0 # L1))"
    have "distinct (0 # L1)" using dist z by auto
    from butlast_neq_last [OF this x] have "x \<noteq> c" by (simp add: c_def)
    moreover have "x \<in> set (0 # L1)" using x by (rule in_set_butlastD)
    then have "x \<noteq> nd" using nd by auto
    ultimately show "x \<noteq> c \<and> x \<noteq> nd" by simp
  qed
  show ?thesis
  proof (cases L2)
    case Nil
    define h' where "h' = upd_prev (upd_next (upd_next h nd i None) c i (Some nd)) nd i (Some c)"
    have nxc: "nx h i c = None" using endp Nil by simp
    have lk: "link h i c nd = Inr h'"
      unfolding link_def using nxc cb nd
      by (simp add: get_next_eq set_next_eq set_prev_eq h'_def)
    have nx': "nx h' i = ((nx h i)(nd := None))(c := Some nd)"
      using cb nd by (simp add: h'_def nx_upd_next)
    have pv': "pv h' i = (pv h i)(nd := Some c)"
      using cb nd by (simp add: h'_def pv_upd_prev)
    have fr: "frame h h' i"
      using cb nd by (simp add: frame_def h'_def nx_upd_next pv_upd_prev)
    have s1: "lseg h' i 0 L1"
    proof -
      have "lseg h' i 0 L1 = lseg h i 0 L1"
        using fr bl1 nd by (intro lseg_cong) (auto simp: frame_def nx' pv')
      with seg1 show ?thesis by simp
    qed
    have s2: "lseg h' i c [nd]"
      using nd fr c_nd by (simp add: nx' pv' frame_def)
    have A: "lseg h' i 0 (L1 @ nd # L2) = (lseg h' i 0 L1 \<and> lseg h' i c (nd # L2))"
      unfolding c_def by (rule lseg_append)
    have B: "last (0 # L1 @ nd # L2) = last (nd # L2)" by simp
    have "nx h' i nd = None" using c_nd by (simp add: nx')
    then have "dll h' i 0 (L1 @ nd # L2)"
      unfolding dll_def A B using s1 s2 Nil by simp
    with lk fr show ?thesis unfolding c_def by blast
  next
    case (Cons y L2')
    define h' where
      "h' = upd_prev (upd_next (upd_prev (upd_next h nd i (Some y)) y i (Some nd)) c i (Some nd)) nd i (Some c)"
    have y: "nx h i c = Some y" "y < length h" "i < lv h y" "i < lp h y" "pv h i y = Some c"
      "lseg h i y L2'"
      using seg2 Cons by auto
    have y_nd: "y \<noteq> nd" using nd Cons by auto
    have y_c: "y \<noteq> c" using c_L2 Cons by auto
    have lk: "link h i c nd = Inr h'"
      unfolding link_def using y cb nd y_nd
      by (simp add: get_next_eq get_prev_eq set_next_eq set_prev_eq h'_def pv_upd_prev)
    have nx': "nx h' i = ((nx h i)(nd := Some y))(c := Some nd)"
      using cb nd y by (simp add: h'_def nx_upd_next)
    have pv': "pv h' i = ((pv h i)(y := Some nd))(nd := Some c)"
      using cb nd y by (simp add: h'_def pv_upd_prev)
    have fr: "frame h h' i"
      using cb nd y by (simp add: frame_def h'_def nx_upd_next pv_upd_prev)
    have s1: "lseg h' i 0 L1"
    proof -
      have "y \<notin> set L1" using dist Cons by auto
      then have "lseg h' i 0 L1 = lseg h i 0 L1"
        using fr bl1 nd by (intro lseg_cong) (auto simp: frame_def nx' pv')
      with seg1 show ?thesis by simp
    qed
    have s3: "lseg h' i y L2'"
    proof -
      have "y \<notin> set L2'" "nd \<notin> set L2'" "c \<notin> set L2'" "nd \<noteq> y" "c \<noteq> y"
        using dist Cons nd c_L2 by auto
      moreover have "set (butlast (y # L2')) \<subseteq> set (y # L2')"
        by (auto dest: in_set_butlastD)
      ultimately have "lseg h' i y L2' = lseg h i y L2'"
        using fr by (intro lseg_cong) (auto simp: frame_def nx' pv' dest: in_set_butlastD)
      with y show ?thesis by simp
    qed
    have s2: "lseg h' i c (nd # y # L2')"
      using nd fr c_nd y y_nd y_c s3 by (simp add: nx' pv' frame_def)
    have e: "nx h' i (last (nd # y # L2')) = None"
    proof -
      have "last (y # L2') \<in> set L2" unfolding Cons by (rule last_in_set) simp
      then have "last (y # L2') \<noteq> c" "last (y # L2') \<noteq> nd" using c_L2 nd by auto
      moreover have "nx h i (last (y # L2')) = None" using endp Cons by simp
      ultimately show ?thesis by (simp add: nx')
    qed
    have A: "lseg h' i 0 (L1 @ nd # L2) = (lseg h' i 0 L1 \<and> lseg h' i c (nd # L2))"
      unfolding c_def by (rule lseg_append)
    have B: "last (0 # L1 @ nd # L2) = last (nd # L2)" by simp
    have "dll h' i 0 (L1 @ nd # L2)"
      unfolding dll_def A B using s1 s2 e Cons by simp
    with lk fr show ?thesis unfolding c_def by blast
  qed
qed

lemma dll_frame: "frame h h' i \<Longrightarrow> j \<noteq> i \<Longrightarrow> dll h' j a xs = dll h j a xs"
proof -
  assume fr: "frame h h' i" and ji: "j \<noteq> i"
  then have "lseg h' j a xs = lseg h j a xs"
    by (intro lseg_cong) (auto simp: frame_def)
  moreover have "nx h' j = nx h j" using fr ji by (simp add: frame_def)
  ultimately show ?thesis by (simp add: dll_def)
qed

lemma nodes_ok_cong:
  "length h' = length h \<Longrightarrow> lv h' = lv h \<Longrightarrow> lp h' = lp h \<Longrightarrow> nodes_ok h' B = nodes_ok h B"
  by (simp add: nodes_ok_def)

lemma distinct_length_le:
  "distinct xs \<Longrightarrow> \<forall>x\<in>set xs. x < (n::nat) \<Longrightarrow> length xs \<le> n"
proof -
  assume d: "distinct xs" and b: "\<forall>x\<in>set xs. x < n"
  then have "set xs \<subseteq> {..<n}" by auto
  then have "card (set xs) \<le> card {..<n}" by (intro card_mono) auto
  with d show ?thesis by (simp add: distinct_card)
qed

lemma search_level:
  assumes dl: "dll h i 0 (L1 @ L2)" and dist: "distinct (L1 @ L2)"
    and bnd: "\<forall>x\<in>set (L1 @ L2). x < length h"
    and hd: "0 < length h" "i < lv h 0"
    and P1: "\<forall>x\<in>set L1. V (vl h x) \<le> v" and P2: "\<forall>x\<in>set L2. \<not> V (vl h x) \<le> v"
    and cur: "cur = 0 \<or> cur \<in> set L1"
  shows "search (Suc (length h)) h i v cur = Inr (last (0 # L1))"
proof -
  obtain A C where AC: "L1 = A @ C" "cur = last (0 # A)"
  proof (cases "cur \<in> set L1")
    case True
    then obtain ys zs where "L1 = ys @ cur # zs" by (auto simp: in_set_conv_decomp)
    then have "L1 = (ys @ [cur]) @ zs" "cur = last (0 # ys @ [cur])" by auto
    then show ?thesis by (rule that)
  next
    case False
    with cur have "L1 = [] @ L1" "cur = last (0 # [])" by auto
    then show ?thesis by (rule that)
  qed
  have seg: "lseg h i cur (C @ L2)"
    using dl unfolding dll_def AC by (simp only: append_assoc lseg_append)
  have cb: "cur < length h" "i < lv h cur"
    using cur hd bnd lseg_bounds [of h i 0 "L1 @ L2" cur] dl by (auto simp: dll_def)
  have e: "L2 = [] \<Longrightarrow> nx h i (last (cur # C)) = None"
  proof -
    assume "L2 = []"
    with dl have "nx h i (last (0 # A @ C)) = None" by (simp add: dll_def AC)
    then show ?thesis by (simp only: last_append_cons AC)
  qed
  have len: "length C < Suc (length h)"
  proof -
    have "distinct C" "\<forall>x\<in>set C. x < length h" using dist bnd AC by auto
    then have "length C \<le> length h" by (rule distinct_length_le)
    then show ?thesis by simp
  qed
  have "search (Suc (length h)) h i v cur = Inr (last (cur # C))"
  proof (rule search_lseg [OF seg cb _ _ len])
    show "\<forall>x\<in>set C. V (vl h x) \<le> v" using P1 AC by auto
    show "case L2 of [] \<Rightarrow> nx h i (last (cur # C)) = None | y # ys \<Rightarrow> \<not> V (vl h y) \<le> v"
      using e P2 by (cases L2) auto
  qed
  moreover have "last (cur # C) = last (0 # L1)"
    unfolding AC by (simp only: last_append_cons)
  ultimately show ?thesis by simp
qed

lemma insert_levels_dll:
  assumes "nodes_ok h (B1 @ nd # B2)"
    and "\<forall>x\<in>set B1. V (vl h x) \<le> v" and "\<forall>x\<in>set B2. \<not> V (vl h x) \<le> v"
    and "lv h nd = Suc level"
    and "n \<le> maxHeight"
    and "\<forall>j<maxHeight. n \<le> j \<longrightarrow> dll h j 0 [x\<leftarrow>B1 @ nd # B2. j < lv h x]"
    and "\<forall>j<n. dll h j 0 [x\<leftarrow>B1 @ B2. j < lv h x]"
    and "cur = 0 \<or> (cur \<in> set B1 \<and> n \<le> lv h cur)"
  shows "\<exists>h'. insert_levels n level v nd cur h = Inr h' \<and> length h' = length h \<and>
           lv h' = lv h \<and> lp h' = lp h \<and> vl h' = vl h \<and>
           (\<forall>j<maxHeight. dll h' j 0 [x\<leftarrow>B1 @ nd # B2. j < lv h x])"
  using assms
proof (induction n arbitrary: cur h)
  case 0
  then show ?case by simp
next
  case (Suc i)
  let ?L1 = "[x\<leftarrow>B1. i < lv h x]" and ?L2 = "[x\<leftarrow>B2. i < lv h x]"
  note ok = Suc.prems(1) and P1 = Suc.prems(2) and P2 = Suc.prems(3) and lvl = Suc.prems(4)
    and hi = Suc.prems(6) and lo = Suc.prems(7) and cur = Suc.prems(8)
  have i: "i < maxHeight" "i \<le> maxHeight" using Suc.prems(5) by simp_all
  have basics: "0 < length h" "lv h 0 = maxHeight" "distinct (B1 @ nd # B2)"
    "0 \<notin> set (B1 @ nd # B2)"
    "\<forall>x\<in>set (B1 @ nd # B2). x < length h \<and> 0 < lv h x \<and> lp h x = lv h x"
    using ok by (auto simp: nodes_ok_def list_all_iff)
  have dl: "dll h i 0 (?L1 @ ?L2)" using lo by simp
  have s: "search (Suc (length h)) h i v cur = Inr (last (0 # ?L1))"
  proof (rule search_level [OF dl])
    show "distinct (?L1 @ ?L2)" using basics(3) by auto
    show "\<forall>x\<in>set (?L1 @ ?L2). x < length h" using basics(5) by auto
    show "0 < length h" by (rule basics)
    show "i < lv h 0" using basics(2) i by simp
    show "\<forall>x\<in>set ?L1. V (vl h x) \<le> v" using P1 by simp
    show "\<forall>x\<in>set ?L2. \<not> V (vl h x) \<le> v" using P2 by simp
    show "cur = 0 \<or> cur \<in> set ?L1" using cur by auto
  qed
  define c where "c = last (0 # ?L1)"
  have c: "c = 0 \<or> (c \<in> set B1 \<and> i \<le> lv h c)"
    using last_in_set_cons [of 0 ?L1] by (auto simp: c_def)
  show ?case
  proof (cases "i > level")
    case True
    have "\<exists>h'. insert_levels i level v nd c h = Inr h' \<and> length h' = length h \<and>
           lv h' = lv h \<and> lp h' = lp h \<and> vl h' = vl h \<and>
           (\<forall>j<maxHeight. dll h' j 0 [x\<leftarrow>B1 @ nd # B2. j < lv h x])"
    proof (rule Suc.IH [OF ok P1 P2 lvl i(2) _ _ c])
      show "\<forall>j<maxHeight. i \<le> j \<longrightarrow> dll h j 0 [x\<leftarrow>B1 @ nd # B2. j < lv h x]"
      proof (intro allI impI)
        fix j assume j: "j < maxHeight" "i \<le> j"
        show "dll h j 0 [x\<leftarrow>B1 @ nd # B2. j < lv h x]"
        proof (cases "j = i")
          case True
          then show ?thesis using dl lvl \<open>level < i\<close> by simp
        next
          case False
          then show ?thesis using hi j by simp
        qed
      qed
      show "\<forall>j<i. dll h j 0 [x\<leftarrow>B1 @ B2. j < lv h x]" using lo by simp
    qed
    with s True show ?thesis by (simp add: c_def)
  next
    case False
    have "\<exists>h1. link h i (last (0 # ?L1)) nd = Inr h1 \<and> dll h1 i 0 (?L1 @ nd # ?L2) \<and> frame h h1 i"
    proof (rule link_dll [OF dl])
      show "distinct (?L1 @ ?L2)" using basics(3) by auto
      show "0 \<notin> set (?L1 @ ?L2)" using basics(4) by auto
      show "nd \<notin> set (?L1 @ ?L2)" using basics(3) by auto
      show "nd \<noteq> 0" using basics(4) by auto
      show "nd < length h" using basics(5) by simp
      show "i < lv h nd" using False lvl by simp
      show "i < lp h nd" using False lvl basics(5) by simp
      show "0 < length h" by (rule basics)
      show "i < lv h 0" using basics(2) i by simp
    qed
    then obtain h1 where lk: "link h i c nd = Inr h1" "dll h1 i 0 (?L1 @ nd # ?L2)" "frame h h1 i"
      unfolding c_def by blast
    have eqs: "length h1 = length h" "lv h1 = lv h" "lp h1 = lp h" "vl h1 = vl h"
      using lk(3) by (simp_all add: frame_def)
    have "\<exists>h'. insert_levels i level v nd c h1 = Inr h' \<and> length h' = length h1 \<and>
           lv h' = lv h1 \<and> lp h' = lp h1 \<and> vl h' = vl h1 \<and>
           (\<forall>j<maxHeight. dll h' j 0 [x\<leftarrow>B1 @ nd # B2. j < lv h1 x])"
    proof (rule Suc.IH [OF _ _ _ _ i(2)])
      show "nodes_ok h1 (B1 @ nd # B2)"
        using ok nodes_ok_cong [of h1 h "B1 @ nd # B2"] eqs by simp
      show "\<forall>x\<in>set B1. V (vl h1 x) \<le> v" using P1 eqs by simp
      show "\<forall>x\<in>set B2. \<not> V (vl h1 x) \<le> v" using P2 eqs by simp
      show "lv h1 nd = Suc level" using lvl eqs by simp
      show "c = 0 \<or> (c \<in> set B1 \<and> i \<le> lv h1 c)" using c eqs by simp
      show "\<forall>j<maxHeight. i \<le> j \<longrightarrow> dll h1 j 0 [x\<leftarrow>B1 @ nd # B2. j < lv h1 x]"
      proof (intro allI impI)
        fix j assume j: "j < maxHeight" "i \<le> j"
        show "dll h1 j 0 [x\<leftarrow>B1 @ nd # B2. j < lv h1 x]"
        proof (cases "j = i")
          case True
          then show ?thesis using lk(2) lvl False eqs by simp
        next
          case False
          then have "dll h1 j 0 [x\<leftarrow>B1 @ nd # B2. j < lv h x] = dll h j 0 [x\<leftarrow>B1 @ nd # B2. j < lv h x]"
            by (intro dll_frame [OF lk(3)])
          then show ?thesis using hi j False eqs by simp
        qed
      qed
      show "\<forall>j<i. dll h1 j 0 [x\<leftarrow>B1 @ B2. j < lv h1 x]"
      proof (intro allI impI)
        fix j assume j: "j < i"
        then have "dll h1 j 0 [x\<leftarrow>B1 @ B2. j < lv h x] = dll h j 0 [x\<leftarrow>B1 @ B2. j < lv h x]"
          by (intro dll_frame [OF lk(3)]) simp
        then show "dll h1 j 0 [x\<leftarrow>B1 @ B2. j < lv h1 x]" using lo j eqs by simp
      qed
    qed
    with s False lk(1) eqs show ?thesis by (simp add: c_def)
  qed
qed

lemma lseg_cong_pt:
  "(\<forall>x\<in>set xs. (x < length h') = (x < length h) \<and> lv h' x = lv h x \<and> lp h' x = lp h x \<and>
       pv h' i x = pv h i x) \<Longrightarrow>
   (\<forall>x\<in>set (butlast (a # xs)). nx h' i x = nx h i x) \<Longrightarrow>
   lseg h' i a xs = lseg h i a xs"
  by (induction xs arbitrary: a) auto

lemma dll_cong_pt:
  "(\<forall>x\<in>set xs. (x < length h') = (x < length h) \<and> lv h' x = lv h x \<and> lp h' x = lp h x \<and>
       pv h' i x = pv h i x) \<Longrightarrow>
   (\<forall>x\<in>set (a # xs). nx h' i x = nx h i x) \<Longrightarrow>
   dll h' i a xs = dll h i a xs"
proof -
  assume 1: "\<forall>x\<in>set xs. (x < length h') = (x < length h) \<and> lv h' x = lv h x \<and> lp h' x = lp h x \<and>
       pv h' i x = pv h i x" and 2: "\<forall>x\<in>set (a # xs). nx h' i x = nx h i x"
  have "\<forall>x\<in>set (butlast (a # xs)). nx h' i x = nx h i x"
    using 2 by (auto dest: in_set_butlastD)
  with 1 have "lseg h' i a xs = lseg h i a xs" by (rule lseg_cong_pt)
  moreover have "last (a # xs) \<in> set (a # xs)" by (rule last_in_set) simp
  then have "nx h' i (last (a # xs)) = nx h i (last (a # xs))" using 2 by blast
  ultimately show ?thesis by (simp add: dll_def)
qed

lemma proj_append:
  "a < length h \<Longrightarrow> lv (h @ [n]) a = lv h a"
  "a < length h \<Longrightarrow> lp (h @ [n]) a = lp h a"
  "a < length h \<Longrightarrow> vl (h @ [n]) a = vl h a"
  "a < length h \<Longrightarrow> nx (h @ [n]) i a = nx h i a"
  "a < length h \<Longrightarrow> pv (h @ [n]) i a = pv h i a"
  "lv (h @ [n]) (length h) = length (next' n)"
  "lp (h @ [n]) (length h) = length (prev n)"
  "vl (h @ [n]) (length h) = value' n"
  by (simp_all add: lv_def lp_def vl_def nx_def pv_def nth_append)

lemma sorted_split:
  "sorted (map f xs) \<Longrightarrow> xs = [x\<leftarrow>xs. f x \<le> (v::int)] @ [x\<leftarrow>xs. \<not> f x \<le> v]"
proof (induction xs)
  case Nil
  then show ?case by simp
next
  case (Cons a xs)
  show ?case
  proof (cases "f a \<le> v")
    case True
    with Cons show ?thesis by simp
  next
    case False
    with Cons.prems have "\<forall>x\<in>set xs. \<not> f x \<le> v" by auto
    then have "[x\<leftarrow>xs. f x \<le> v] = []" "[x\<leftarrow>xs. \<not> f x \<le> v] = xs"
      by (simp_all add: filter_empty_conv filter_id_conv)
    with False show ?thesis by simp
  qed
qed

lemma sorted_insert_mid:
  "sorted (map f (B1 @ B2)) \<Longrightarrow> \<forall>x\<in>set B1. f x \<le> (v::int) \<Longrightarrow> \<forall>x\<in>set B2. \<not> f x \<le> v \<Longrightarrow>
   \<forall>x\<in>set (B1 @ B2). g x = f x \<Longrightarrow> g nd = v \<Longrightarrow>
   sorted (map g (B1 @ nd # B2))"
proof -
  assume s: "sorted (map f (B1 @ B2))" and 1: "\<forall>x\<in>set B1. f x \<le> v"
    and 2: "\<forall>x\<in>set B2. \<not> f x \<le> v" and g: "\<forall>x\<in>set (B1 @ B2). g x = f x" "g nd = v"
  have e: "map g (B1 @ nd # B2) = map f B1 @ v # map f B2" using g by auto
  have "sorted (map f B1 @ v # map f B2)" using s 1 2 by (auto simp: sorted_append)
  then show ?thesis unfolding e .
qed

lemma wf_dll0: "wf sl B \<Longrightarrow> dll (nodes sl) 0 0 B"
proof -
  assume w: "wf sl B"
  then have "dll (nodes sl) 0 0 [x\<leftarrow>B. 0 < lv (nodes sl) x]"
    by (simp add: wf_def list_all_iff maxHeight_def)
  moreover have "[x\<leftarrow>B. 0 < lv (nodes sl) x] = B"
    using w by (auto simp: wf_def nodes_ok_def list_all_iff filter_id_conv)
  ultimately show ?thesis by simp
qed

lemma Skiplist_Insert_wf:
  assumes w: "wf sl B"
    and ok: "height sl < maxHeight - 1 \<or> level_of (fst (Int31 r)) < maxHeight"
  shows "\<exists>sl'. Skiplist_Insert r sl e = Inr (snd (Int31 r), sl', length (nodes sl)) \<and>
           wf sl' ([x\<leftarrow>B. V (vl (nodes sl) x) \<le> V e] @ length (nodes sl) #
                   [x\<leftarrow>B. \<not> V (vl (nodes sl) x) \<le> V e]) \<and>
           vl (nodes sl') (length (nodes sl)) = e \<and>
           (\<forall>a<length (nodes sl). vl (nodes sl') a = vl (nodes sl) a) \<and>
           length (nodes sl') = Suc (length (nodes sl)) \<and>
           height sl' \<le> Suc (height sl) \<and> head sl' = head sl"
proof -
  define h where "h = nodes sl"
  define l0 where "l0 = level_of (fst (Int31 r))"
  define hgt where "hgt = (if l0 > height sl then height sl + 1 else height sl)"
  define level where "level = (if l0 > height sl then height sl + 1 else l0)"
  define nd where "nd = length h"
  define nn where "nn = \<lparr>value' = e, next' = replicate (level + 1) None,
                          prev = replicate (level + 1) (None :: nat option)\<rparr>"
  define h0 where "h0 = h @ [nn]"
  define B1 where "B1 = [x\<leftarrow>B. V (vl h x) \<le> V e]"
  define B2 where "B2 = [x\<leftarrow>B. \<not> V (vl h x) \<le> V e]"
  have wfacts: "head sl = 0" "height sl < maxHeight" "nodes_ok h B"
    "\<forall>x\<in>set B. lv h x \<le> Suc (height sl)"
    "\<forall>i<maxHeight. dll h i 0 [x\<leftarrow>B. i < lv h x]"
    "sorted (map (\<lambda>x. V (vl h x)) B)" "vl h 0 = zeroEntry"
    using w by (auto simp: wf_def h_def list_all_iff)
  have basics: "0 < length h" "lv h 0 = maxHeight" "distinct B" "0 \<notin> set B"
    "\<forall>x\<in>set B. x < length h \<and> 0 < lv h x \<and> lp h x = lv h x"
    using wfacts(3) by (auto simp: nodes_ok_def list_all_iff)
  have B: "B = B1 @ B2"
    unfolding B1_def B2_def using wfacts(6) by (rule sorted_split)
  have hgt: "hgt < maxHeight" "level \<le> hgt" "height sl \<le> hgt" "hgt \<le> Suc (height sl)"
    using ok wfacts(2) by (auto simp: hgt_def level_def l0_def)
  have nd: "nd \<notin> set B" "nd \<noteq> 0" "nd < length h0"
    using basics by (auto simp: nd_def h0_def)
  have old: "\<And>a. a < length h \<Longrightarrow> lv h0 a = lv h a \<and> lp h0 a = lp h a \<and> vl h0 a = vl h a"
    "\<And>a i. a < length h \<Longrightarrow> nx h0 i a = nx h i a \<and> pv h0 i a = pv h i a"
    by (simp_all add: h0_def proj_append)
  have new: "lv h0 nd = Suc level" "lp h0 nd = Suc level" "vl h0 nd = e"
    by (simp_all add: h0_def nd_def nn_def proj_append)
  have oldB: "\<forall>x\<in>set B. lv h0 x = lv h x \<and> lp h0 x = lp h x \<and> vl h0 x = vl h x \<and>
      x < length h0 \<and> x < length h"
    using basics old by (auto simp: h0_def)
  have filt: "\<And>j xs. set xs \<subseteq> set B \<Longrightarrow> [x\<leftarrow>xs. j < lv h0 x] = [x\<leftarrow>xs. j < lv h x]"
    using oldB by (intro filter_cong) auto
  have dll0: "\<And>j xs. set xs \<subseteq> set B \<Longrightarrow> dll h0 j 0 xs = dll h j 0 xs"
  proof (rule dll_cong_pt)
    fix j xs assume sub: "set xs \<subseteq> set B"
    show "\<forall>x\<in>set xs. (x < length h0) = (x < length h) \<and> lv h0 x = lv h x \<and> lp h0 x = lp h x \<and>
       pv h0 j x = pv h j x"
      using sub oldB old by auto
    show "\<forall>x\<in>set (0 # xs). nx h0 j x = nx h j x"
      using sub oldB old basics(1) by auto
  qed
  have ok0: "nodes_ok h0 (B1 @ nd # B2)"
    using basics nd oldB old new unfolding nodes_ok_def list_all_iff B
    by (auto simp: h0_def)
  have P1: "\<forall>x\<in>set B1. V (vl h0 x) \<le> V e" using oldB by (auto simp: B1_def)
  have P2: "\<forall>x\<in>set B2. \<not> V (vl h0 x) \<le> V e" using oldB by (auto simp: B2_def)
  have hi: "\<forall>j<maxHeight. Suc hgt \<le> j \<longrightarrow> dll h0 j 0 [x\<leftarrow>B1 @ nd # B2. j < lv h0 x]"
  proof (intro allI impI)
    fix j assume j: "j < maxHeight" "Suc hgt \<le> j"
    have nf: "\<forall>x\<in>set B. \<not> j < lv h x"
    proof
      fix x assume "x \<in> set B"
      then have "lv h x \<le> Suc (height sl)" using wfacts(4) by blast
      then show "\<not> j < lv h x" using j hgt by linarith
    qed
    then have "[x\<leftarrow>B. j < lv h x] = []"
      by (simp add: filter_empty_conv)
    then have e1: "dll h j 0 []" using wfacts(5) j by auto
    have "\<forall>x\<in>set B. \<not> j < lv h0 x" using nf oldB by simp
    moreover have "\<not> j < lv h0 nd" using new j hgt by simp
    ultimately have "[x\<leftarrow>B1 @ nd # B2. j < lv h0 x] = []"
      unfolding B by (simp add: filter_empty_conv)
    moreover have "dll h0 j 0 [] = dll h j 0 []" by (rule dll0) simp
    ultimately show "dll h0 j 0 [x\<leftarrow>B1 @ nd # B2. j < lv h0 x]" using e1 by simp
  qed
  have lo: "\<forall>j<Suc hgt. dll h0 j 0 [x\<leftarrow>B1 @ B2. j < lv h0 x]"
  proof (intro allI impI)
    fix j assume j: "j < Suc hgt"
    then have jm: "j < maxHeight" using hgt by simp
    have "[x\<leftarrow>B. j < lv h0 x] = [x\<leftarrow>B. j < lv h x]" by (rule filt) simp
    moreover have "dll h0 j 0 [x\<leftarrow>B. j < lv h x] = dll h j 0 [x\<leftarrow>B. j < lv h x]"
      by (rule dll0) auto
    ultimately show "dll h0 j 0 [x\<leftarrow>B1 @ B2. j < lv h0 x]"
      using wfacts(5) jm unfolding B by simp
  qed
  have "\<exists>h'. insert_levels (Suc hgt) level (V e) nd 0 h0 = Inr h' \<and> length h' = length h0 \<and>
           lv h' = lv h0 \<and> lp h' = lp h0 \<and> vl h' = vl h0 \<and>
           (\<forall>j<maxHeight. dll h' j 0 [x\<leftarrow>B1 @ nd # B2. j < lv h0 x])"
    using hgt(1) by (intro insert_levels_dll [OF ok0 P1 P2 new(1) _ hi lo]) simp_all
  then obtain h' where h': "insert_levels (Suc hgt) level (V e) nd 0 h0 = Inr h'"
    "length h' = length h0" "lv h' = lv h0" "lp h' = lp h0" "vl h' = vl h0"
    "\<forall>j<maxHeight. dll h' j 0 [x\<leftarrow>B1 @ nd # B2. j < lv h0 x]"
    by blast
  define sl' where "sl' = sl\<lparr>height := hgt, nodes := h'\<rparr>"
  have "Skiplist_Insert r sl e =
      bind (insert_levels (Suc hgt) level (V e) nd (head sl) h0)
        (\<lambda>h'. Inr (snd (Int31 r), sl\<lparr>height := hgt, nodes := h'\<rparr>, nd))"
    unfolding Skiplist_Insert_def Let_def hgt_def level_def l0_def nd_def h0_def nn_def h_def
    by (rule refl)
  then have res: "Skiplist_Insert r sl e = Inr (snd (Int31 r), sl', nd)"
    using h'(1) wfacts(1) by (simp only: bind_Inr sl'_def)
  have srt: "sorted (map (\<lambda>x. V (vl h' x)) (B1 @ nd # B2))"
  proof (rule sorted_insert_mid [where f = "\<lambda>x. V (vl h x)" and v = "V e"])
    show "sorted (map (\<lambda>x. V (vl h x)) (B1 @ B2))" using wfacts(6) B by simp
    show "\<forall>x\<in>set B1. V (vl h x) \<le> V e" by (simp add: B1_def)
    show "\<forall>x\<in>set B2. \<not> V (vl h x) \<le> V e" by (simp add: B2_def)
    show "\<forall>x\<in>set (B1 @ B2). V (vl h' x) = V (vl h x)" using oldB h'(5) B by simp
    show "V (vl h' nd) = V e" using new h'(5) by simp
  qed
  have wf': "wf sl' (B1 @ nd # B2)"
    unfolding wf_def list_all_iff
  proof (intro conjI ballI)
    show "head sl' = 0" using wfacts(1) by (simp add: sl'_def)
    show "height sl' < maxHeight" using hgt by (simp add: sl'_def)
    show "vl (nodes sl') 0 = zeroEntry"
      using wfacts(7) old(1) [OF basics(1)] h'(5) by (simp add: sl'_def)
    show "nodes_ok (nodes sl') (B1 @ nd # B2)"
      using ok0 nodes_ok_cong [of h' h0 "B1 @ nd # B2"] h' by (simp add: sl'_def)
    show "sorted (map (\<lambda>x. V (vl (nodes sl') x)) (B1 @ nd # B2))"
      using srt by (simp add: sl'_def)
  next
    fix x assume "x \<in> set (B1 @ nd # B2)"
    then have "x = nd \<or> x \<in> set B" unfolding B by auto
    then have "lv h0 x \<le> Suc hgt"
    proof
      assume "x = nd"
      then show ?thesis using new hgt by simp
    next
      assume x: "x \<in> set B"
      then have "lv h x \<le> Suc (height sl)" using wfacts(4) by blast
      then show ?thesis using x oldB hgt by simp
    qed
    then show "lv (nodes sl') x \<le> Suc (height sl')"
      using h'(3) by (simp add: sl'_def)
  next
    fix i assume "i \<in> set [0..<maxHeight]"
    then show "dll (nodes sl') i 0 [x\<leftarrow>B1 @ nd # B2. i < lv (nodes sl') x]"
      using h'(6) h'(3) by (simp add: sl'_def)
  qed
  have "vl (nodes sl') nd = e" using new h'(5) by (simp add: sl'_def)
  moreover have "\<forall>a<length h. vl (nodes sl') a = vl h a" using old h'(5) by (simp add: sl'_def)
  moreover have "length (nodes sl') = Suc (length h)" using h'(2) by (simp add: sl'_def h0_def)
  moreover have "height sl' \<le> Suc (height sl)" "head sl' = head sl"
    using hgt by (simp_all add: sl'_def)
  ultimately show ?thesis
    using res wf' unfolding B1_def B2_def nd_def h_def by blast
qed

lemma remove_level_dll:
  assumes d: "dll h i 0 (L1 @ x # L2)" and dist: "distinct (L1 @ x # L2)"
    and z: "0 \<notin> set (L1 @ x # L2)" and hd: "0 < length h" "i < lv h 0"
  shows "\<exists>h'. remove_level h x i = Inr h' \<and> dll h' i 0 (L1 @ L2) \<and> frame h h' i"
proof -
  define c where "c = last (0 # L1)"
  have seg1: "lseg h i 0 L1" and segx: "lseg h i c (x # L2)"
    using d by (auto simp: dll_def lseg_append c_def)
  have endp: "nx h i (last (x # L2)) = None"
    using d by (simp add: dll_def)
  have x: "nx h i c = Some x" "x < length h" "i < lv h x" "i < lp h x" "pv h i x = Some c"
    "lseg h i x L2"
    using segx by auto
  have c_in: "c = 0 \<or> c \<in> set L1"
    unfolding c_def by (rule last_in_set_cons)
  have cb: "c < length h" "i < lv h c"
    using c_in hd lseg_bounds [OF seg1] by auto
  have c_x: "c \<noteq> x" using c_in dist z by auto
  have c_L2: "c \<notin> set L2" using c_in dist z by auto
  have bl1: "\<And>a. a \<in> set (butlast (0 # L1)) \<Longrightarrow> a \<noteq> c \<and> a \<noteq> x"
  proof -
    fix a assume a: "a \<in> set (butlast (0 # L1))"
    have "distinct (0 # L1)" using dist z by auto
    from butlast_neq_last [OF this a] have "a \<noteq> c" by (simp add: c_def)
    moreover have "a \<in> set (0 # L1)" using a by (rule in_set_butlastD)
    then have "a \<noteq> x" using dist z by auto
    ultimately show "a \<noteq> c \<and> a \<noteq> x" by simp
  qed
  show ?thesis
  proof (cases L2)
    case Nil
    define h' where "h' = upd_prev (upd_next (upd_next h c i None) x i None) x i None"
    have nxx: "nx h i x = None" using endp Nil by simp
    have rm: "remove_level h x i = Inr h'"
      unfolding remove_level_def using nxx x cb
      by (simp add: get_next_eq get_prev_eq set_next_eq set_prev_eq h'_def)
    have nx': "nx h' i = ((nx h i)(c := None))(x := None)"
      using cb x by (simp add: h'_def nx_upd_next)
    have pv': "pv h' i = (pv h i)(x := None)"
      using cb x by (simp add: h'_def pv_upd_prev)
    have fr: "frame h h' i"
      using cb x by (simp add: frame_def h'_def nx_upd_next pv_upd_prev)
    have s1: "lseg h' i 0 L1"
    proof -
      have "x \<notin> set L1" using dist by auto
      then have "lseg h' i 0 L1 = lseg h i 0 L1"
        using fr bl1 by (intro lseg_cong) (auto simp: frame_def nx' pv')
      with seg1 show ?thesis by simp
    qed
    have "nx h' i c = None" using c_x by (simp add: nx')
    then have "dll h' i 0 (L1 @ L2)"
      unfolding dll_def using s1 Nil by (simp add: c_def)
    with rm fr show ?thesis by blast
  next
    case (Cons y L2')
    define h' where
      "h' = upd_prev (upd_next (upd_prev (upd_next h c i (Some y)) y i (Some c)) x i None) x i None"
    have y: "nx h i x = Some y" "y < length h" "i < lv h y" "i < lp h y" "pv h i y = Some x"
      "lseg h i y L2'"
      using x(6) Cons by auto
    have y_x: "y \<noteq> x" using dist Cons by auto
    have y_c: "y \<noteq> c" using c_L2 Cons by auto
    have rm: "remove_level h x i = Inr h'"
      unfolding remove_level_def using y x cb
      by (simp add: get_next_eq get_prev_eq set_next_eq set_prev_eq h'_def)
    have nx': "nx h' i = ((nx h i)(c := Some y))(x := None)"
      using cb x y by (simp add: h'_def nx_upd_next)
    have pv': "pv h' i = ((pv h i)(y := Some c))(x := None)"
      using cb x y by (simp add: h'_def pv_upd_prev)
    have fr: "frame h h' i"
      using cb x y by (simp add: frame_def h'_def nx_upd_next pv_upd_prev)
    have s1: "lseg h' i 0 L1"
    proof -
      have "x \<notin> set L1" "y \<notin> set L1" using dist Cons by auto
      then have "lseg h' i 0 L1 = lseg h i 0 L1"
        using fr bl1 by (intro lseg_cong) (auto simp: frame_def nx' pv')
      with seg1 show ?thesis by simp
    qed
    have s3: "lseg h' i y L2'"
    proof -
      have "y \<notin> set L2'" "x \<notin> set L2'" "c \<notin> set L2'"
        using dist Cons c_L2 by auto
      then have "lseg h' i y L2' = lseg h i y L2'"
        using fr y_x y_c by (intro lseg_cong) (auto simp: frame_def nx' pv' dest: in_set_butlastD)
      with y show ?thesis by simp
    qed
    have s2: "lseg h' i c (y # L2')"
      using fr c_x y y_x y_c s3 by (simp add: nx' pv' frame_def)
    have e: "nx h' i (last (y # L2')) = None"
    proof -
      have "last (y # L2') \<in> set L2" unfolding Cons by (rule last_in_set) simp
      then have "last (y # L2') \<noteq> c" "last (y # L2') \<noteq> x" using c_L2 dist by auto
      moreover have "nx h i (last (y # L2')) = None" using endp Cons by simp
      ultimately show ?thesis by (simp add: nx')
    qed
    have A: "lseg h' i 0 (L1 @ L2) = (lseg h' i 0 L1 \<and> lseg h' i c L2)"
      unfolding c_def by (rule lseg_append)
    have Bl: "last (0 # L1 @ L2) = last (y # L2')" using Cons by simp
    have "dll h' i 0 (L1 @ L2)"
      unfolding dll_def A Bl using s1 s2 e Cons by simp
    with rm fr show ?thesis by blast
  qed
qed

lemma remove_levels_dll:
  assumes "nodes_ok h (A @ x # C)"
    and "distinct js" and "\<forall>j\<in>set js. j < lv h x \<and> j < maxHeight"
    and "\<forall>j<maxHeight. dll h j 0 (if j \<in> set js then [y\<leftarrow>A @ x # C. j < lv h y]
                                     else [y\<leftarrow>A @ C. j < lv h y])"
  shows "\<exists>h'. remove_levels h x js = Inr h' \<and> length h' = length h \<and>
           lv h' = lv h \<and> lp h' = lp h \<and> vl h' = vl h \<and>
           (\<forall>j<maxHeight. dll h' j 0 [y\<leftarrow>A @ C. j < lv h y])"
  using assms
proof (induction js arbitrary: h)
  case Nil
  then show ?case by simp
next
  case (Cons i js)
  note ok = Cons.prems(1) and pre = Cons.prems(4)
  have i: "i < lv h x" "i < maxHeight" "i \<notin> set js" "distinct js"
    using Cons.prems(2,3) by auto
  have basics: "0 < length h" "lv h 0 = maxHeight" "distinct (A @ x # C)"
    "0 \<notin> set (A @ x # C)"
    using ok by (auto simp: nodes_ok_def list_all_iff)
  let ?L1 = "[y\<leftarrow>A. i < lv h y]" and ?L2 = "[y\<leftarrow>C. i < lv h y]"
  have dl: "dll h i 0 (?L1 @ x # ?L2)"
  proof -
    from pre i(2) have "dll h i 0 (if i \<in> set (i # js) then [y\<leftarrow>A @ x # C. i < lv h y]
        else [y\<leftarrow>A @ C. i < lv h y])" by blast
    then show ?thesis using i(1) by simp
  qed
  have "\<exists>h1. remove_level h x i = Inr h1 \<and> dll h1 i 0 (?L1 @ ?L2) \<and> frame h h1 i"
  proof (rule remove_level_dll [OF dl])
    show "distinct (?L1 @ x # ?L2)" using basics(3) by auto
    show "0 \<notin> set (?L1 @ x # ?L2)" using basics(4) by auto
    show "0 < length h" by (rule basics)
    show "i < lv h 0" using basics(2) i by simp
  qed
  then obtain h1 where h1: "remove_level h x i = Inr h1" "dll h1 i 0 (?L1 @ ?L2)" "frame h h1 i"
    by blast
  have eqs: "length h1 = length h" "lv h1 = lv h" "lp h1 = lp h" "vl h1 = vl h"
    using h1(3) by (simp_all add: frame_def)
  have "\<exists>h'. remove_levels h1 x js = Inr h' \<and> length h' = length h1 \<and>
           lv h' = lv h1 \<and> lp h' = lp h1 \<and> vl h' = vl h1 \<and>
           (\<forall>j<maxHeight. dll h' j 0 [y\<leftarrow>A @ C. j < lv h1 y])"
  proof (rule Cons.IH [OF _ i(4)])
    show "nodes_ok h1 (A @ x # C)"
      using ok nodes_ok_cong [of h1 h "A @ x # C"] eqs by simp
    show "\<forall>j\<in>set js. j < lv h1 x \<and> j < maxHeight" using Cons.prems(3) eqs by simp
    show "\<forall>j<maxHeight. dll h1 j 0 (if j \<in> set js then [y\<leftarrow>A @ x # C. j < lv h1 y]
                                     else [y\<leftarrow>A @ C. j < lv h1 y])"
    proof (intro allI impI)
      fix j assume j: "j < maxHeight"
      show "dll h1 j 0 (if j \<in> set js then [y\<leftarrow>A @ x # C. j < lv h1 y]
                                     else [y\<leftarrow>A @ C. j < lv h1 y])"
      proof (cases "j = i")
        case True
        then show ?thesis using h1(2) i eqs by simp
      next
        case False
        then have E: "\<And>xs. dll h1 j 0 xs = dll h j 0 xs"
          by (intro dll_frame [OF h1(3)])
        from pre j have P: "dll h j 0 (if j \<in> set (i # js) then [y\<leftarrow>A @ x # C. j < lv h y]
            else [y\<leftarrow>A @ C. j < lv h y])" by blast
        have "(j \<in> set (i # js)) = (j \<in> set js)" using False by simp
        with P show ?thesis unfolding E eqs by (simp only:)
      qed
    qed
  qed
  with h1(1) eqs show ?case by simp
qed

lemma Skiplist_Remove_wf:
  assumes w: "wf sl (A @ x # C)"
  shows "\<exists>sl'. Skiplist_Remove sl x = Inr sl' \<and> wf sl' (A @ C) \<and>
           vl (nodes sl') = vl (nodes sl) \<and> length (nodes sl') = length (nodes sl) \<and>
           height sl' = height sl \<and> head sl' = head sl"
proof -
  define h where "h = nodes sl"
  have wfacts: "head sl = 0" "height sl < maxHeight" "nodes_ok h (A @ x # C)"
    "\<forall>y\<in>set (A @ x # C). lv h y \<le> Suc (height sl)"
    "\<forall>i<maxHeight. dll h i 0 [y\<leftarrow>A @ x # C. i < lv h y]"
    "sorted (map (\<lambda>y. V (vl h y)) (A @ x # C))" "vl h 0 = zeroEntry"
    using w by (auto simp: wf_def h_def list_all_iff)
  have xb: "x < length h" "lv h x \<le> maxHeight"
    using wfacts(2,3,4) by (auto simp: nodes_ok_def list_all_iff)
  have "\<exists>h'. remove_levels h x [0..<lv h x] = Inr h' \<and> length h' = length h \<and>
           lv h' = lv h \<and> lp h' = lp h \<and> vl h' = vl h \<and>
           (\<forall>j<maxHeight. dll h' j 0 [y\<leftarrow>A @ C. j < lv h y])"
  proof (rule remove_levels_dll [OF wfacts(3)])
    show "distinct [0..<lv h x]" by simp
    show "\<forall>j\<in>set [0..<lv h x]. j < lv h x \<and> j < maxHeight" using xb by auto
    show "\<forall>j<maxHeight. dll h j 0 (if j \<in> set [0..<lv h x] then [y\<leftarrow>A @ x # C. j < lv h y]
                                     else [y\<leftarrow>A @ C. j < lv h y])"
      using wfacts(5) by auto
  qed
  then obtain h' where h': "remove_levels h x [0..<lv h x] = Inr h'" "length h' = length h"
    "lv h' = lv h" "lp h' = lp h" "vl h' = vl h"
    "\<forall>j<maxHeight. dll h' j 0 [y\<leftarrow>A @ C. j < lv h y]"
    by blast
  define sl' where "sl' = sl\<lparr>nodes := h'\<rparr>"
  have res: "Skiplist_Remove sl x = Inr sl'"
    using h'(1) xb by (simp add: Skiplist_Remove_def h_def [symmetric] lv_def [symmetric] sl'_def)
  have ok': "nodes_ok h' (A @ C)"
    using wfacts(3) h'(2,3,4) by (auto simp: nodes_ok_def list_all_iff)
  have "wf sl' (A @ C)"
    unfolding wf_def list_all_iff
  proof (intro conjI ballI)
    show "head sl' = 0" using wfacts(1) by (simp add: sl'_def)
    show "height sl' < maxHeight" using wfacts(2) by (simp add: sl'_def)
    show "vl (nodes sl') 0 = zeroEntry" using wfacts(7) h'(5) by (simp add: sl'_def)
    show "nodes_ok (nodes sl') (A @ C)" using ok' by (simp add: sl'_def)
    show "sorted (map (\<lambda>x. V (vl (nodes sl') x)) (A @ C))"
      using wfacts(6) h'(5) by (auto simp: sl'_def sorted_append)
  next
    fix y assume "y \<in> set (A @ C)"
    then show "lv (nodes sl') y \<le> Suc (height sl')"
      using wfacts(4) h'(3) by (auto simp: sl'_def)
  next
    fix i assume "i \<in> set [0..<maxHeight]"
    then show "dll (nodes sl') i 0 [x\<leftarrow>A @ C. i < lv (nodes sl') x]"
      using h'(6) h'(3) by (simp add: sl'_def)
  qed
  then show ?thesis
    using res h' by (auto simp: sl'_def h_def)
qed

section \<open>The code computes the list functions\<close>

lemma wf_facts:
  assumes "wf sl B"
  shows "head sl = 0" "height sl < maxHeight" "vl (nodes sl) 0 = zeroEntry"
    "0 < length (nodes sl)" "lv (nodes sl) 0 = maxHeight" "distinct B" "0 \<notin> set B"
    "\<forall>x\<in>set B. x < length (nodes sl) \<and> 0 < lv (nodes sl) x \<and> lp (nodes sl) x = lv (nodes sl) x"
    "\<forall>x\<in>set B. lv (nodes sl) x \<le> Suc (height sl)"
    "sorted (map (\<lambda>x. V (vl (nodes sl) x)) B)"
    "dll (nodes sl) 0 0 B"
    "length B < length (nodes sl)"
proof -
  show a: "head sl = 0" "height sl < maxHeight" "vl (nodes sl) 0 = zeroEntry"
    "0 < length (nodes sl)" "lv (nodes sl) 0 = maxHeight" "distinct B" "0 \<notin> set B"
    "\<forall>x\<in>set B. x < length (nodes sl) \<and> 0 < lv (nodes sl) x \<and> lp (nodes sl) x = lv (nodes sl) x"
    "\<forall>x\<in>set B. lv (nodes sl) x \<le> Suc (height sl)"
    "sorted (map (\<lambda>x. V (vl (nodes sl) x)) B)"
    using assms by (auto simp: wf_def nodes_ok_def list_all_iff)
  show "dll (nodes sl) 0 0 B" using assms by (rule wf_dll0)
  have "distinct (0 # B)" "\<forall>x\<in>set (0 # B). x < length (nodes sl)" using a by auto
  then have "length (0 # B) \<le> length (nodes sl)" by (rule distinct_length_le)
  then show "length B < length (nodes sl)" by simp
qed

lemma walk_lseg:
  "lseg h 0 a xs \<Longrightarrow> nx h 0 (last (a # xs)) = None \<Longrightarrow> length xs < fuel \<Longrightarrow>
   walk fuel h (nx h 0 a) = Inr xs"
proof (induction xs arbitrary: a fuel)
  case Nil
  then show ?case by (cases fuel) auto
next
  case (Cons x xs)
  then obtain f where f: "fuel = Suc f" by (cases fuel) auto
  have "walk f h (nx h 0 x) = Inr xs"
    using Cons.prems by (intro Cons.IH) (auto simp: f)
  then show ?case using Cons.prems by (simp add: f get_next_eq)
qed

lemma base_wf: "wf sl B \<Longrightarrow> base sl = Inr B"
proof -
  assume w: "wf sl B"
  note f = wf_facts [OF w]
  have "walk (Suc (length (nodes sl))) (nodes sl) (nx (nodes sl) 0 0) = Inr B"
    using f(11,12) by (intro walk_lseg) (auto simp: dll_def)
  then show ?thesis using f by (simp add: base_def get_next_eq maxHeight_def)
qed

lemma entries_wf: "wf sl B \<Longrightarrow> entries sl = Inr (map (vl (nodes sl)) B)"
  by (simp add: entries_def base_wf vl_def)

lemma holds_iff:
  "holds s es = (\<exists>sl B. data s = Some sl \<and> wf sl B \<and> es = map (vl (nodes sl)) B)"
  by (auto simp: holds_def base_wf split: option.splits sum.splits)

lemma quantile_loop_lseg:
  "lseg h 0 a xs \<Longrightarrow> nx h 0 (last (a # xs)) = None \<Longrightarrow> length xs < fuel \<Longrightarrow>
   quantile_loop fuel h r epsN rmin (nx h 0 a) = list_Quantile r epsN rmin (map (vl h) xs)"
proof (induction xs arbitrary: a fuel rmin)
  case Nil
  then show ?case by (cases fuel) auto
next
  case (Cons x xs)
  then obtain f where f: "fuel = Suc f" by (cases fuel) auto
  have IH: "quantile_loop f h r epsN (rmin + G (vl h x)) (nx h 0 x) =
      list_Quantile r epsN (rmin + G (vl h x)) (map (vl h) xs)"
    using Cons.prems by (intro Cons.IH) (auto simp: f)
  show ?case
  proof (cases xs)
    case Nil
    with Cons.prems show ?thesis by (simp add: f get_next_eq get_value_eq)
  next
    case (Cons y ys)
    with Cons.prems IH show ?thesis
      by (simp add: f get_next_eq get_value_eq Let_def add.assoc)
  qed
qed

lemma Quantile_rank_holds:
  "holds s es \<Longrightarrow> Quantile_rank s r = list_Quantile r (eps1N (N s)) 0 es"
proof -
  assume "holds s es"
  then obtain sl B where s: "data s = Some sl" "wf sl B" "es = map (vl (nodes sl)) B"
    by (auto simp: holds_iff)
  note f = wf_facts [OF s(2)]
  have "quantile_loop (Suc (length (nodes sl))) (nodes sl) r (eps1N (N s)) 0 (nx (nodes sl) 0 0)
      = list_Quantile r (eps1N (N s)) 0 (map (vl (nodes sl)) B)"
    using f(11,12) by (intro quantile_loop_lseg) (auto simp: dll_def)
  then show ?thesis using f s by (simp add: Quantile_rank_def get_next_eq maxHeight_def)
qed



lemma flatten_loop_lseg:
  "lseg h 0 a xs \<Longrightarrow> nx h 0 (last (a # xs)) = None \<Longrightarrow> length xs < fuel \<Longrightarrow>
   flatten_loop fuel h (nx h 0 a) acc = Inr (acc @ map (vl h) xs)"
proof (induction xs arbitrary: a fuel acc)
  case Nil
  then show ?case by (cases fuel) auto
next
  case (Cons x xs)
  then obtain f where f: "fuel = Suc f" by (cases fuel) auto
  have "\<And>acc. flatten_loop f h (nx h 0 x) acc = Inr (acc @ map (vl h) xs)"
    using Cons.prems by (intro Cons.IH) (auto simp: f)
  then show ?case using Cons.prems by (simp add: f get_next_eq get_value_eq)
qed

lemma MarshalJSON_holds:
  "holds s es \<Longrightarrow> Summary_MarshalJSON s = Inr \<lparr>wire_data = list_Marshal es, wire_n = N s\<rparr>"
proof -
  assume "holds s es"
  then obtain sl B where s: "data s = Some sl" "wf sl B" "es = map (vl (nodes sl)) B"
    by (auto simp: holds_iff)
  note f = wf_facts [OF s(2)]
  have "flatten_loop (length (nodes sl)) (nodes sl) (nx (nodes sl) 0 0) [zeroEntry]
      = Inr ([zeroEntry] @ map (vl (nodes sl)) B)"
    using f(11,12) by (intro flatten_loop_lseg) (auto simp: dll_def)
  then show ?thesis
    using f s
    by (simp add: Summary_MarshalJSON_def get_next_eq get_value_eq maxHeight_def list_Marshal_def)
qed

lemma merge_loop_lseg:
  "lseg h2 0 a xs \<Longrightarrow> nx h2 0 (last (a # xs)) = None \<Longrightarrow> length xs < fuel \<Longrightarrow>
   merge_loop fuel h2 r sl (nx h2 0 a) = insert_all r sl (map (vl h2) xs)"
proof (induction xs arbitrary: a fuel r sl)
  case Nil
  then show ?case by (cases fuel) auto
next
  case (Cons x xs)
  then obtain f where f: "fuel = Suc f" by (cases fuel) auto
  have IH: "\<And>r sl. merge_loop f h2 r sl (nx h2 0 x) = insert_all r sl (map (vl h2) xs)"
    using Cons.prems by (intro Cons.IH) (auto simp: f)
  show ?case
    using Cons.prems
    by (cases "Skiplist_Insert r sl (vl h2 x)")
      (auto simp: f get_next_eq get_value_eq IH split: prod.splits)
qed

lemma src_Int31 [simp]: "src (snd (Int31 r)) = src r"
  by (simp add: Int31_def)

lemma src_Intn [simp]: "src (snd (Intn n r)) = src r"
  by (simp add: Intn_def)

lemma Intn_1 [simp]: "fst (Intn 1 r) = 0"
  by (simp add: Intn_def)

lemma levels_ok_Int31: "levels_ok r \<Longrightarrow> level_of (fst (Int31 r)) < maxHeight"
  by (simp add: levels_ok_def Int31_def)

lemma levels_ok_src: "src r' = src r \<Longrightarrow> levels_ok r' = levels_ok r"
  by (simp add: levels_ok_def)

lemma map_vl_old:
  "\<forall>a<n. f' a = f a \<Longrightarrow> \<forall>x\<in>set xs. x < n \<Longrightarrow> map f' xs = map f xs"
  by (induction xs) auto

lemma Skiplist_Insert_place:
  assumes w: "wf sl B"
    and ok: "height sl < maxHeight - 1 \<or> level_of (fst (Int31 r)) < maxHeight"
  shows "\<exists>sl' B'. Skiplist_Insert r sl e = Inr (snd (Int31 r), sl', length (nodes sl)) \<and>
           wf sl' B' \<and> map (vl (nodes sl')) B' = place e (map (vl (nodes sl)) B) \<and>
           height sl' \<le> Suc (height sl)"
proof -
  define h where "h = nodes sl"
  define B1 where "B1 = [x\<leftarrow>B. V (vl h x) \<le> V e]"
  define B2 where "B2 = [x\<leftarrow>B. \<not> V (vl h x) \<le> V e]"
  from Skiplist_Insert_wf [OF w ok, of e]
  obtain sl' where sl': "Skiplist_Insert r sl e = Inr (snd (Int31 r), sl', length h)"
    "wf sl' (B1 @ length h # B2)" "vl (nodes sl') (length h) = e"
    "\<forall>a<length h. vl (nodes sl') a = vl h a" "height sl' \<le> Suc (height sl)"
    unfolding h_def B1_def B2_def by blast
  note f = wf_facts [OF w]
  have b: "\<forall>x\<in>set B1. x < length h" "\<forall>x\<in>set B2. x < length h"
    using f(8) by (auto simp: B1_def B2_def h_def)
  have "map (vl (nodes sl')) B1 = map (vl h) B1" "map (vl (nodes sl')) B2 = map (vl h) B2"
    using sl'(4) b by (auto intro: map_vl_old)
  then have "map (vl (nodes sl')) (B1 @ length h # B2) = place e (map (vl h) B)"
    using sl'(3) by (simp add: place_def B1_def B2_def filter_map comp_def)
  with sl' show ?thesis unfolding h_def by blast
qed

lemma insert_all_wf:
  "wf sl B \<Longrightarrow> levels_ok r \<or> height sl + length es < maxHeight \<Longrightarrow>
   \<exists>r' sl' B'. insert_all r sl es = Inr (r', sl') \<and> wf sl' B' \<and>
      map (vl (nodes sl')) B' = foldl (\<lambda>acc e. place e acc) (map (vl (nodes sl)) B) es \<and>
      src r' = src r \<and> height sl' \<le> height sl + length es"
proof (induction es arbitrary: r sl B)
  case Nil
  then show ?case by (intro exI [of _ r] exI [of _ sl] exI [of _ B]) simp
next
  case (Cons e es)
  have ok: "height sl < maxHeight - 1 \<or> level_of (fst (Int31 r)) < maxHeight"
    using Cons.prems(2) by (auto dest: levels_ok_Int31)
  from Skiplist_Insert_place [OF Cons.prems(1) ok, of e]
  obtain sl1 B1 where s1: "Skiplist_Insert r sl e = Inr (snd (Int31 r), sl1, length (nodes sl))"
    "wf sl1 B1" "map (vl (nodes sl1)) B1 = place e (map (vl (nodes sl)) B)"
    "height sl1 \<le> Suc (height sl)"
    by blast
  have ok1: "levels_ok (snd (Int31 r)) \<or> height sl1 + length es < maxHeight"
    using Cons.prems(2) s1(4) levels_ok_src [of "snd (Int31 r)" r] by auto
  from Cons.IH [OF s1(2) ok1]
  obtain r' sl' B' where r': "insert_all (snd (Int31 r)) sl1 es = Inr (r', sl')" "wf sl' B'"
    "map (vl (nodes sl')) B' = foldl (\<lambda>acc e. place e acc) (map (vl (nodes sl1)) B1) es"
    "src r' = src (snd (Int31 r))" "height sl' \<le> height sl1 + length es"
    by blast
  have 1: "insert_all r sl (e # es) = Inr (r', sl')"
    using s1(1) r'(1) by simp
  have 2: "map (vl (nodes sl')) B' = foldl (\<lambda>acc e. place e acc) (map (vl (nodes sl)) B) (e # es)"
    using r'(3) s1(3) by simp
  have 3: "src r' = src r" using r'(4) by simp
  have 4: "height sl' \<le> height sl + length (e # es)" using r'(5) s1(4) by simp
  show ?case using 1 r'(2) 2 3 4 by blast
qed

lemma wf_upd_value:
  assumes w: "wf sl B" and b: "b \<in> set B" and v: "V e = V (vl (nodes sl) b)"
  shows "wf (sl\<lparr>nodes := upd_value (nodes sl) b e\<rparr>) B"
proof -
  define h where "h = nodes sl"
  define h' where "h' = upd_value h b e"
  note f = wf_facts [OF w, folded h_def]
  have b0: "b \<noteq> 0" using b f(7) by metis
  have bl: "b < length h" using b f(8) by blast
  have vl': "vl h' = (vl h)(b := e)"
    unfolding h'_def using bl by (rule vl_upd_value)
  have pr: "length h' = length h" "lv h' = lv h" "lp h' = lp h" "nx h' = nx h" "pv h' = pv h"
    unfolding h'_def by simp_all
  have Vs: "\<And>x. V (vl h' x) = V (vl h x)"
    using v by (simp add: vl' h_def)
  have dl: "\<And>i xs. dll h' i 0 xs = dll h i 0 xs"
    by (rule dll_cong_pt) (simp_all add: pr)
  have "wf (sl\<lparr>nodes := h'\<rparr>) B"
    unfolding wf_def
  proof (intro conjI)
    show "head (sl\<lparr>nodes := h'\<rparr>) = 0" using f(1) by simp
    show "height (sl\<lparr>nodes := h'\<rparr>) < maxHeight" using f(2) by simp
    show "vl (nodes (sl\<lparr>nodes := h'\<rparr>)) 0 = zeroEntry" using f(3) b0 by (simp add: vl')
    show "nodes_ok (nodes (sl\<lparr>nodes := h'\<rparr>)) B"
      using w nodes_ok_cong [of h' h B] pr by (simp add: wf_def h_def)
    show "list_all (\<lambda>x. lv (nodes (sl\<lparr>nodes := h'\<rparr>)) x \<le> Suc (height (sl\<lparr>nodes := h'\<rparr>))) B"
      using w by (simp add: wf_def pr h_def [symmetric])
    show "list_all (\<lambda>i. dll (nodes (sl\<lparr>nodes := h'\<rparr>)) i 0
        [x\<leftarrow>B. i < lv (nodes (sl\<lparr>nodes := h'\<rparr>)) x]) [0..<maxHeight]"
      using w by (simp add: wf_def pr dl h_def [symmetric])
    show "sorted (map (\<lambda>x. V (vl (nodes (sl\<lparr>nodes := h'\<rparr>)) x)) B)"
      using f(10) by (simp add: Vs)
  qed
  then show ?thesis unfolding h'_def h_def .
qed

lemma map_fun_upd_notin: "b \<notin> set xs \<Longrightarrow> map (f(b := e)) xs = map f xs"
  by (induction xs) auto

lemma compress_loop_wf:
  "wf sl (A @ a # C) \<Longrightarrow> length C < fuel \<Longrightarrow>
   \<exists>r' sl' B'. compress_loop fuel epsN r sl missing (Some a) = Inr (r', sl') \<and> wf sl' (A @ B') \<and>
      map (vl (nodes sl')) (A @ B') =
        map (vl (nodes sl)) A @ list_compress epsN missing (map (vl (nodes sl)) (a # C)) \<and>
      src r' = src r \<and> height sl' = height sl"
proof (induction C arbitrary: a A sl missing r fuel)
  case Nil
  then obtain f where f: "fuel = Suc f" by (cases fuel) auto
  note w = wf_facts [OF Nil.prems(1)]
  have "nx (nodes sl) 0 a = None" using w(11) by (simp add: dll_def)
  moreover have "a < length (nodes sl)" "0 < lv (nodes sl) a" using w(8) by auto
  ultimately have "compress_loop fuel epsN r sl missing (Some a) = Inr (r, sl)"
    by (simp add: f get_next_eq)
  then show ?case using Nil.prems(1) by (intro exI [of _ r] exI [of _ sl] exI [of _ "[a]"]) simp
next
  case (Cons b C)
  then obtain f where f: "fuel = Suc f" by (cases fuel) auto
  have fl: "length C < f" using Cons.prems(2) f by simp
  define h where "h = nodes sl"
  define t where "t = vl h a"
  define nt where "nt = vl h b"
  define r1 where "r1 = snd (Intn 1 r)"
  note w = wf_facts [OF Cons.prems(1), folded h_def]
  have ab: "a < length h" "0 < lv h a" "b < length h" "a \<noteq> b" "b \<notin> set A" "b \<notin> set C"
    "a \<notin> set A" "a \<notin> set C"
    using w(6,8) by auto
  have nxa: "nx h 0 a = Some b"
    using w(11) by (simp add: dll_def lseg_append)
  have r1: "src r1 = src r" by (simp add: r1_def)
  have step: "compress_loop fuel epsN r sl missing (Some a) =
      (if V t = V nt then
         bind (Skiplist_Remove (sl\<lparr>nodes := upd_value h b
                 (nt\<lparr>Delta := Delta nt + (missing + G nt), G := G t, Samples := Samples t\<rparr>)\<rparr>) a)
           (\<lambda>sl2. compress_loop f epsN r1 sl2 (missing + G nt) (Some b))
       else if G t + G nt + missing + Delta nt < epsN then
         bind (Skiplist_Remove (sl\<lparr>nodes := upd_value h b
                 (nt\<lparr>G := G nt + (G t + missing), Samples := Samples t\<rparr>)\<rparr>) a)
           (\<lambda>sl2. compress_loop f epsN r1 sl2 0 (Some b))
       else compress_loop f epsN r1 (sl\<lparr>nodes := upd_value h b (nt\<lparr>G := G nt + missing\<rparr>)\<rparr>)
              0 (Some b))"
    using ab nxa
    by (simp add: f get_next_eq get_value_eq set_value_def Let_def h_def [symmetric]
        t_def [symmetric] nt_def [symmetric] r1_def [symmetric])
  have removal: "\<And>(e::Entry) m. V e = V nt \<Longrightarrow>
      \<exists>r' sl' B'. bind (Skiplist_Remove (sl\<lparr>nodes := upd_value h b e\<rparr>) a)
           (\<lambda>sl2. compress_loop f epsN r1 sl2 m (Some b)) = Inr (r', sl') \<and> wf sl' (A @ B') \<and>
        map (vl (nodes sl')) (A @ B') =
          map (vl h) A @ list_compress epsN m (e # map (vl h) C) \<and>
        src r' = src r \<and> height sl' = height sl"
  proof -
    fix e :: Entry and m assume e: "V e = V nt"
    define sl1 where "sl1 = sl\<lparr>nodes := upd_value h b e\<rparr>"
    have w1: "wf sl1 (A @ a # b # C)"
      unfolding sl1_def h_def using Cons.prems(1)
      by (rule wf_upd_value) (simp_all add: e nt_def h_def)
    from Skiplist_Remove_wf [OF w1]
    obtain sl2 where sl2: "Skiplist_Remove sl1 a = Inr sl2" "wf sl2 (A @ b # C)"
      "vl (nodes sl2) = vl (nodes sl1)" "height sl2 = height sl1"
      by blast
    have v2: "vl (nodes sl2) = (vl h)(b := e)"
      using sl2(3) ab(3) by (simp add: sl1_def)
    from Cons.IH [OF sl2(2) fl, where r = r1 and missing = m]
    obtain r' sl' B' where res: "compress_loop f epsN r1 sl2 m (Some b) = Inr (r', sl')"
      "wf sl' (A @ B')"
      "map (vl (nodes sl')) (A @ B') =
        map (vl (nodes sl2)) A @ list_compress epsN m (map (vl (nodes sl2)) (b # C))"
      "src r' = src r1" "height sl' = height sl2"
      by blast
    have eqs: "map (vl (nodes sl2)) A = map (vl h) A" "map (vl (nodes sl2)) C = map (vl h) C"
      "vl (nodes sl2) b = e"
      using ab by (simp_all add: v2 map_fun_upd_notin)
    have m: "map (vl (nodes sl')) (A @ B') =
        map (vl h) A @ list_compress epsN m (e # map (vl h) C)"
      using res(3) by (simp only: list.map eqs)
    have "bind (Skiplist_Remove (sl\<lparr>nodes := upd_value h b e\<rparr>) a)
           (\<lambda>sl2. compress_loop f epsN r1 sl2 m (Some b)) = Inr (r', sl')"
      using sl2(1) res(1) by (simp add: sl1_def)
    moreover have "src r' = src r" using res(4) r1 by simp
    moreover have "height sl' = height sl" using res(5) sl2(4) by (simp add: sl1_def)
    ultimately show "\<exists>r' sl' B'. bind (Skiplist_Remove (sl\<lparr>nodes := upd_value h b e\<rparr>) a)
           (\<lambda>sl2. compress_loop f epsN r1 sl2 m (Some b)) = Inr (r', sl') \<and> wf sl' (A @ B') \<and>
        map (vl (nodes sl')) (A @ B') =
          map (vl h) A @ list_compress epsN m (e # map (vl h) C) \<and>
        src r' = src r \<and> height sl' = height sl"
      using res(2) m by blast
  qed
  have goal_eq: "map (vl (nodes sl)) A @ list_compress epsN missing (map (vl (nodes sl)) (a # b # C))
      = map (vl h) A @ list_compress epsN missing (t # nt # map (vl h) C)"
    by (simp only: list.map h_def t_def nt_def)
  show ?case
  proof (cases "V t = V nt")
    case True
    define e where "e = nt\<lparr>Delta := Delta nt + (missing + G nt), G := G t, Samples := Samples t\<rparr>"
    have lc: "list_compress epsN missing (t # nt # map (vl h) C) =
        list_compress epsN (missing + G nt) (e # map (vl h) C)"
      using True by (simp add: e_def)
    have st: "compress_loop fuel epsN r sl missing (Some a) =
        bind (Skiplist_Remove (sl\<lparr>nodes := upd_value h b e\<rparr>) a)
           (\<lambda>sl2. compress_loop f epsN r1 sl2 (missing + G nt) (Some b))"
      unfolding step e_def by (rule if_P [OF True])
    have "V e = V nt" by (simp add: e_def)
    from removal [OF this, of "missing + G nt"]
    show ?thesis unfolding goal_eq lc st .
  next
    case False
    show ?thesis
    proof (cases "G t + G nt + missing + Delta nt < epsN")
      case True
      define e where "e = nt\<lparr>G := G nt + (G t + missing), Samples := Samples t\<rparr>"
      have lc: "list_compress epsN missing (t # nt # map (vl h) C) =
          list_compress epsN 0 (e # map (vl h) C)"
        using True False by (simp add: e_def)
      have st: "compress_loop fuel epsN r sl missing (Some a) =
          bind (Skiplist_Remove (sl\<lparr>nodes := upd_value h b e\<rparr>) a)
             (\<lambda>sl2. compress_loop f epsN r1 sl2 0 (Some b))"
        unfolding step e_def by (simp only: if_not_P [OF False] if_P [OF True])
      have "V e = V nt" by (simp add: e_def)
      from removal [OF this, of 0]
      show ?thesis unfolding goal_eq lc st .
    next
      case F2: False
      define e where "e = nt\<lparr>G := G nt + missing\<rparr>"
      define sl1 where "sl1 = sl\<lparr>nodes := upd_value h b e\<rparr>"
      have "wf sl1 (A @ a # b # C)"
        unfolding sl1_def h_def using Cons.prems(1)
        by (rule wf_upd_value) (simp_all add: e_def nt_def h_def)
      then have w1: "wf sl1 ((A @ [a]) @ b # C)" by simp
      have v1: "vl (nodes sl1) = (vl h)(b := e)"
        using ab(3) by (simp add: sl1_def)
      from Cons.IH [OF w1 fl, where r = r1 and missing = 0]
      obtain r' sl' B' where res: "compress_loop f epsN r1 sl1 0 (Some b) = Inr (r', sl')"
        "wf sl' ((A @ [a]) @ B')"
        "map (vl (nodes sl')) ((A @ [a]) @ B') =
          map (vl (nodes sl1)) (A @ [a]) @ list_compress epsN 0 (map (vl (nodes sl1)) (b # C))"
        "src r' = src r1" "height sl' = height sl1"
        by blast
      have eqs: "map (vl (nodes sl1)) A = map (vl h) A" "map (vl (nodes sl1)) C = map (vl h) C"
        "vl (nodes sl1) a = t" "vl (nodes sl1) b = e"
        using ab by (simp_all add: v1 map_fun_upd_notin t_def)
      have m: "map (vl (nodes sl')) (A @ a # B') =
          map (vl h) A @ t # list_compress epsN 0 (e # map (vl h) C)"
        using res(3) by (simp only: list.map map_append eqs append_assoc append_Cons append_Nil)
      have lc: "list_compress epsN missing (t # nt # map (vl h) C) =
          t # list_compress epsN 0 (e # map (vl h) C)"
        using False F2 by (simp add: e_def)
      have st: "compress_loop fuel epsN r sl missing (Some a) =
          compress_loop f epsN r1 sl1 0 (Some b)"
        unfolding step e_def sl1_def by (simp only: if_not_P [OF False] if_not_P [OF F2])
      have "compress_loop fuel epsN r sl missing (Some a) = Inr (r', sl')"
        unfolding st by (rule res(1))
      moreover have "wf sl' (A @ a # B')" using res(2) by simp
      moreover have "src r' = src r" using res(4) r1 by simp
      moreover have "height sl' = height sl" using res(5) by (simp add: sl1_def)
      ultimately show ?thesis
        using m unfolding goal_eq lc by blast
    qed
  qed
qed

lemma held_iff:
  "held s es k =
     (\<exists>sl B. data s = Some sl \<and> wf sl B \<and> es = map (vl (nodes sl)) B \<and> height sl \<le> k)"
  by (auto simp: held_def holds_iff)

lemma held_holds: "held s es k \<Longrightarrow> holds s es"
  by (simp add: held_def)

lemma wf_NewSkiplist: "wf NewSkiplist []"
proof -
  have "\<And>i. i < maxHeight \<Longrightarrow> nx (nodes NewSkiplist) i 0 = None"
    by (simp add: nx_def NewSkiplist_def)
  then show ?thesis
    by (simp add: wf_def nodes_ok_def list_all_iff dll_def NewSkiplist_def vl_def lv_def maxHeight_def)
qed

lemma held_NewSummary: "held NewSummary [] 0"
  using wf_NewSkiplist by (auto simp: held_iff NewSummary_def NewSkiplist_def)

lemma Summary_compress_held:
  assumes "held s es k"
  shows "\<exists>r' s'. Summary_compress r s = Inr (r', s') \<and>
           held s' (list_compress (eps2N (N s)) 0 es) k \<and> N s' = N s \<and> src r' = src r"
proof -
  from assms obtain sl B where s: "data s = Some sl" "wf sl B" "es = map (vl (nodes sl)) B"
    "height sl \<le> k"
    by (auto simp: held_iff)
  note f = wf_facts [OF s(2)]
  have first: "get_next (nodes sl) (head sl) 0 = Inr (nx (nodes sl) 0 0)"
    using f by (simp add: get_next_eq maxHeight_def)
  show ?thesis
  proof (cases B)
    case Nil
    then have "nx (nodes sl) 0 0 = None" using f(11) by (simp add: dll_def)
    then have "Summary_compress r s = Inr (r, s)"
      using s(1) first by (simp add: Summary_compress_def)
    moreover have "held s (list_compress (eps2N (N s)) 0 es) k"
      using assms s(3) Nil by simp
    ultimately show ?thesis by blast
  next
    case (Cons a C)
    then have nx0: "nx (nodes sl) 0 0 = Some a" using f(11) by (simp add: dll_def)
    have w: "wf sl ([] @ a # C)" using s(2) Cons by simp
    have "length C < Suc (length (nodes sl))" using f(12) Cons by simp
    from compress_loop_wf [OF w this, of "eps2N (N s)" r 0]
    obtain r' sl' B' where res:
      "compress_loop (Suc (length (nodes sl))) (eps2N (N s)) r sl 0 (Some a) = Inr (r', sl')"
      "wf sl' B'"
      "map (vl (nodes sl')) B' = list_compress (eps2N (N s)) 0 (map (vl (nodes sl)) (a # C))"
      "src r' = src r" "height sl' = height sl"
      by auto
    have "Summary_compress r s = Inr (r', s\<lparr>data := Some sl'\<rparr>)"
      using s(1) first nx0 res(1) by (simp add: Summary_compress_def)
    moreover have "held (s\<lparr>data := Some sl'\<rparr>) (list_compress (eps2N (N s)) 0 es) k"
      unfolding held_iff using res(2,3,5) s(3,4) Cons by auto
    ultimately show ?thesis using res(4) by auto
  qed
qed

lemma Summary_Insert_held:
  assumes hd: "held s es k" and lev: "levels_ok r \<or> k < maxHeight - 1"
  shows "\<exists>r' s'. Summary_Insert r s v t = Inr (r', s') \<and>
           held s' (list_Insert (N s) es v t) (Suc k) \<and> N s' = N s + 1 \<and> src r' = src r"
proof -
  from hd obtain sl B where s: "data s = Some sl" "wf sl B" "es = map (vl (nodes sl)) B"
    "height sl \<le> k"
    by (auto simp: held_iff)
  define h where "h = nodes sl"
  define e where "e = \<lparr>V = v, G = 1, Delta = 0, Samples = [t]\<rparr>"
  define nd where "nd = length h"
  define B1 where "B1 = [x\<leftarrow>B. V (vl h x) \<le> V e]"
  define B2 where "B2 = [x\<leftarrow>B. \<not> V (vl h x) \<le> V e]"
  define n1 where "n1 = N s + 1"
  define r1 where "r1 = snd (Int31 r)"
  have ok: "height sl < maxHeight - 1 \<or> level_of (fst (Int31 r)) < maxHeight"
    using lev s(4) by (auto dest: levels_ok_Int31)
  from Skiplist_Insert_wf [OF s(2) ok, of e]
  obtain sl1 where sl1: "Skiplist_Insert r sl e = Inr (r1, sl1, nd)"
    "wf sl1 (B1 @ nd # B2)" "vl (nodes sl1) nd = e"
    "\<forall>a<length h. vl (nodes sl1) a = vl h a" "height sl1 \<le> Suc (height sl)"
    unfolding h_def B1_def B2_def nd_def r1_def by blast
  define h1 where "h1 = nodes sl1"
  note f = wf_facts [OF s(2), folded h_def]
  note f1 = wf_facts [OF sl1(2), folded h1_def]
  have ndb: "nd < length h1" "0 < lv h1 nd" "lp h1 nd = lv h1 nd"
    using f1(8) by auto
  have seg: "lseg h1 0 (last (0 # B1)) (nd # B2)" and endp: "nx h1 0 (last (nd # B2)) = None"
    using f1(11) by (simp_all add: dll_def lseg_append)
  have pvn: "pv h1 0 nd = Some (last (0 # B1))" using seg by simp
  have nxn: "nx h1 0 nd = (case B2 of [] \<Rightarrow> None | y # ys \<Rightarrow> Some y)"
    using seg endp by (cases B2) auto
  have l0: "(last (0 # B1) \<noteq> 0) = (B1 \<noteq> [])"
  proof (cases "B1 = []")
    case True
    then show ?thesis by simp
  next
    case False
    then have "last B1 \<in> set B1" by (rule last_in_set)
    moreover have "0 \<notin> set B1" using f1(7) by simp
    ultimately have "last B1 \<noteq> 0" by metis
    then show ?thesis using False by simp
  qed
  have nx0: "(nx h1 0 nd \<noteq> None) = (B2 \<noteq> [])"
    by (cases B2) (simp_all add: nxn)
  define interior where "interior = (B1 \<noteq> [] \<and> B2 \<noteq> [])"
  define e' where "e' = (if interior then e\<lparr>Delta := eps2N n1\<rparr> else e)"
  define h2 where "h2 = (if interior then upd_value h1 nd e' else h1)"
  define sl2 where "sl2 = sl1\<lparr>nodes := h2\<rparr>"
  define s1 where "s1 = s\<lparr>data := Some sl2, N := n1\<rparr>"
  have step: "Summary_Insert r s v t =
      (if n1 mod 50 = 0 then Summary_compress r1 s1 else Inr (r1, s1))"
  proof (cases interior)
    case True
    then show ?thesis
      using s(1) sl1(1,3) ndb pvn l0 nx0 f1(1)
      by (simp add: Summary_Insert_def e_def [symmetric] Let_def h1_def [symmetric]
          get_prev_eq get_next_eq get_value_eq set_value_def n1_def [symmetric]
          interior_def s1_def sl2_def h2_def e'_def vl_def [symmetric])
  next
    case False
    then show ?thesis
      using s(1) sl1(1,3) ndb pvn l0 nx0 f1(1)
      by (auto simp add: Summary_Insert_def e_def [symmetric] Let_def h1_def [symmetric]
          get_prev_eq get_next_eq get_value_eq set_value_def n1_def [symmetric]
          interior_def s1_def sl2_def h2_def e'_def vl_def [symmetric])
  qed
  have w2: "wf sl2 (B1 @ nd # B2)"
  proof (cases interior)
    case True
    have "wf (sl1\<lparr>nodes := upd_value (nodes sl1) nd e'\<rparr>) (B1 @ nd # B2)"
      using sl1(2) by (rule wf_upd_value) (simp_all add: e'_def sl1(3))
    then show ?thesis using True by (simp add: sl2_def h2_def h1_def)
  next
    case False
    then show ?thesis using sl1(2) by (simp add: sl2_def h2_def h1_def)
  qed
  have v2: "vl h2 nd = e'" "\<forall>a<length h. vl h2 a = vl h a"
    using sl1(3,4) ndb by (auto simp: h2_def e'_def h1_def nd_def)
  have bs: "\<forall>x\<in>set B1. x < length h" "\<forall>x\<in>set B2. x < length h"
    using f(8) by (auto simp: B1_def B2_def)
  have m1: "map (vl h2) B1 = [x\<leftarrow>es. V x \<le> v]"
  proof -
    have "map (vl h2) B1 = map (vl h) B1" using v2(2) bs(1) by (rule map_vl_old)
    then show ?thesis by (simp add: B1_def s(3) filter_map comp_def h_def e_def)
  qed
  have m2: "map (vl h2) B2 = [x\<leftarrow>es. \<not> V x \<le> v]"
  proof -
    have "map (vl h2) B2 = map (vl h) B2" using v2(2) bs(2) by (rule map_vl_old)
    then show ?thesis by (simp add: B2_def s(3) filter_map comp_def h_def e_def)
  qed
  have int: "interior = ([x\<leftarrow>es. V x \<le> v] \<noteq> [] \<and> [x\<leftarrow>es. \<not> V x \<le> v] \<noteq> [])"
    unfolding interior_def m1 [symmetric] m2 [symmetric] by simp
  define es1 where "es1 = [x\<leftarrow>es. V x \<le> v] @ e' # [x\<leftarrow>es. \<not> V x \<le> v]"
  have m: "map (vl (nodes sl2)) (B1 @ nd # B2) = es1"
    using m1 m2 v2(1) by (simp add: sl2_def es1_def)
  have e'_eq: "e' = \<lparr>V = v, G = 1,
      Delta = (if [x\<leftarrow>es. V x \<le> v] \<noteq> [] \<and> [x\<leftarrow>es. \<not> V x \<le> v] \<noteq> [] then eps2N (N s + 1) else 0),
      Samples = [t]\<rparr>"
    using int by (simp add: e'_def e_def n1_def)
  have li: "list_Insert (N s) es v t =
      (if n1 mod 50 = 0 then list_compress (eps2N n1) 0 es1 else es1)"
    by (simp add: list_Insert_def Let_def es1_def e'_eq n1_def)
  have hs1: "held s1 es1 (Suc k)"
    unfolding held_iff using w2 m sl1(5) s(4) by (auto simp: s1_def sl2_def)
  have N1: "N s1 = n1" by (simp add: s1_def)
  have r1: "src r1 = src r" by (simp add: r1_def)
  show ?thesis
  proof (cases "n1 mod 50 = 0")
    case True
    from Summary_compress_held [OF hs1, of r1]
    obtain r' s' where c: "Summary_compress r1 s1 = Inr (r', s')"
      "held s' (list_compress (eps2N (N s1)) 0 es1) (Suc k)" "N s' = N s1" "src r' = src r1"
      by blast
    show ?thesis
      using c True r1 unfolding step li N1 n1_def [symmetric] by auto
  next
    case False
    show ?thesis
      using hs1 False r1 N1 unfolding step li n1_def [symmetric] by auto
  qed
qed

lemma held_mono: "held s es k \<Longrightarrow> k \<le> k' \<Longrightarrow> held s es k'"
  by (auto simp: held_def split: option.splits)

lemma Inserts_held:
  "held s es k \<Longrightarrow> levels_ok r \<or> k + length vts < maxHeight \<Longrightarrow>
   \<exists>r' s'. Inserts r s vts = Inr (r', s') \<and>
      held s' (list_Inserts (N s) es vts) (k + length vts) \<and>
      N s' = N s + int (length vts) \<and> src r' = src r"
proof (induction vts arbitrary: r s es k)
  case Nil
  then show ?case by (intro exI [of _ r] exI [of _ s]) simp
next
  case (Cons vt vts)
  have lev: "levels_ok r \<or> k < maxHeight - 1" using Cons.prems(2) by auto
  from Summary_Insert_held [OF Cons.prems(1) lev, of "fst vt" "snd vt"]
  obtain r1 s1 where s1: "Summary_Insert r s (fst vt) (snd vt) = Inr (r1, s1)"
    "held s1 (list_Insert (N s) es (fst vt) (snd vt)) (Suc k)" "N s1 = N s + 1" "src r1 = src r"
    by blast
  have lev1: "levels_ok r1 \<or> Suc k + length vts < maxHeight"
    using Cons.prems(2) levels_ok_src [OF s1(4)] by auto
  from Cons.IH [OF s1(2) lev1]
  obtain r' s' where s': "Inserts r1 s1 vts = Inr (r', s')"
    "held s' (list_Inserts (N s1) (list_Insert (N s) es (fst vt) (snd vt)) vts) (Suc k + length vts)"
    "N s' = N s1 + int (length vts)" "src r' = src r1"
    by blast
  have 1: "Inserts r s (vt # vts) = Inr (r', s')" using s1(1) s'(1) by simp
  have 2: "held s' (list_Inserts (N s) es (vt # vts)) (k + length (vt # vts))"
    using s'(2) s1(3) by simp
  have 3: "N s' = N s + int (length (vt # vts))" using s'(3) s1(3) by simp
  have 4: "src r' = src r" using s'(4) s1(4) by simp
  show ?case using 1 2 3 4 by blast
qed

lemma Merge_held:
  assumes hd: "held s es k" and h2: "holds s2 es2"
    and lev: "levels_ok r \<or> k + Suc (length es2) < maxHeight"
  shows "\<exists>r' s'. Summary_Merge r s s2 = Inr (r', s') \<and>
      holds s' (list_Merge (N s) es (N s2) es2) \<and>
      N s' = N s + N s2 \<and> src r' = src r"
proof (cases "N s2 = 0")
  case True
  then have "Summary_Merge r s s2 = Inr (r, s)" by (simp add: Summary_Merge_def)
  then show ?thesis using True hd by (auto simp: list_Merge_def held_holds)
next
  case False
  from hd obtain sl B where s: "data s = Some sl" "wf sl B" "es = map (vl (nodes sl)) B"
    "height sl \<le> k"
    by (auto simp: held_iff)
  from h2 obtain sl2 B2 where s2: "data s2 = Some sl2" "wf sl2 B2" "es2 = map (vl (nodes sl2)) B2"
    by (auto simp: holds_iff)
  define h2 where "h2 = nodes sl2"
  note f2 = wf_facts [OF s2(2), folded h2_def]
  have "merge_loop (length h2) h2 r1 sl1 (nx h2 0 0) = insert_all r1 sl1 (map (vl h2) B2)"
    for r1 sl1
    using f2(11,12) by (intro merge_loop_lseg) (auto simp: dll_def)
  then have ml: "merge_loop (Suc (length h2)) h2 r sl (Some 0) =
      insert_all r sl (zeroEntry # map (vl h2) B2)"
    using f2 by (cases "Skiplist_Insert r sl zeroEntry")
      (auto simp: get_value_eq get_next_eq maxHeight_def split: prod.splits)
  have lev': "levels_ok r \<or> height sl + length (zeroEntry # map (vl h2) B2) < maxHeight"
    using lev s(4) by (auto simp: s2(3))
  from insert_all_wf [OF s(2) lev']
  obtain r1 sl1 B1 where i: "insert_all r sl (zeroEntry # map (vl h2) B2) = Inr (r1, sl1)"
    "wf sl1 B1"
    "map (vl (nodes sl1)) B1 =
       foldl (\<lambda>acc e. place e acc) (map (vl (nodes sl)) B) (zeroEntry # map (vl h2) B2)"
    "src r1 = src r"
    by blast
  define s1 where "s1 = s\<lparr>N := N s + N s2, data := Some sl1\<rparr>"
  have hs1: "held s1 (foldl (\<lambda>acc e. place e acc) es (zeroEntry # es2)) (height sl1)"
    unfolding held_iff using i(2,3) by (auto simp: s1_def s(3) s2(3) h2_def)
  from Summary_compress_held [OF hs1, of r1]
  obtain r' s' where c: "Summary_compress r1 s1 = Inr (r', s')"
    "held s' (list_compress (eps2N (N s1)) 0 (foldl (\<lambda>acc e. place e acc) es (zeroEntry # es2)))
       (height sl1)"
    "N s' = N s1" "src r' = src r1"
    by blast
  have "Summary_Merge r s s2 = Inr (r', s')"
    using False s(1) s2(1) ml i(1) c(1)
    by (simp add: Summary_Merge_def h2_def [symmetric] f2(1) s1_def)
  moreover have "holds s' (list_Merge (N s) es (N s2) es2)"
    using c(2) False by (simp add: list_Merge_def s1_def held_holds)
  moreover have "N s' = N s + N s2" using c(3) by (simp add: s1_def)
  moreover have "src r' = src r" using c(4) i(4) by simp
  ultimately show ?thesis by blast
qed

lemma UnmarshalJSON_held:
  assumes lev: "levels_ok r \<or> length (wire_data w) < maxHeight"
  shows "\<exists>r' s'. Summary_UnmarshalJSON r w = Inr (r', s') \<and>
      held s' (list_Unmarshal (wire_data w)) (length (wire_data w)) \<and>
      N s' = wire_n w \<and> src r' = src r"
proof -
  have lev': "levels_ok r \<or> height NewSkiplist + length (wire_data w) < maxHeight"
    using lev by (simp add: NewSkiplist_def)
  from insert_all_wf [OF wf_NewSkiplist lev']
  obtain r1 sl1 B1 where i: "insert_all r NewSkiplist (wire_data w) = Inr (r1, sl1)"
    "wf sl1 B1"
    "map (vl (nodes sl1)) B1 = foldl (\<lambda>acc e. place e acc) (map (vl (nodes NewSkiplist)) []) (wire_data w)"
    "src r1 = src r" "height sl1 \<le> height NewSkiplist + length (wire_data w)"
    by blast
  define s' where "s' = \<lparr>data = Some sl1, EncodedData = wire_data w, N = wire_n w\<rparr>"
  have "Summary_UnmarshalJSON r w = Inr (r1, s')"
    using i(1) by (simp add: Summary_UnmarshalJSON_def s'_def)
  moreover have "held s' (list_Unmarshal (wire_data w)) (length (wire_data w))"
    unfolding held_iff using i(2,3,5) by (auto simp: s'_def list_Unmarshal_def NewSkiplist_def)
  moreover have "N s' = wire_n w" by (simp add: s'_def)
  ultimately show ?thesis using i(4) by blast
qed

lemma Summary_Quantile_holds:
  "holds s es \<Longrightarrow> Summary_Quantile s q = list_Quantile (rank_of q (N s)) (eps1N (N s)) 0 es"
  by (simp add: Summary_Quantile_def Quantile_rank_holds)

section \<open>Properties of the list functions\<close>

subsection \<open>Fewer than 50 observations\<close>




lemma sorted_place: "sorted (map V es) \<Longrightarrow> sorted (map V (place e es))"
proof -
  assume s: "sorted (map V es)"
  have "es = [x\<leftarrow>es. V x \<le> V e] @ [x\<leftarrow>es. \<not> V x \<le> V e]"
    using s by (rule sorted_split)
  then have "sorted (map V ([x\<leftarrow>es. V x \<le> V e] @ [x\<leftarrow>es. \<not> V x \<le> V e]))"
    using s by simp
  then show ?thesis
    unfolding place_def
    by (rule sorted_insert_mid [where v = "V e"]) auto
qed


lemma set_place: "set (place e es) = insert e (set es)"
  by (auto simp: place_def)




lemma rank_of_0 [simp]: "rank_of 0 n = 0"
  by (simp add: rank_of_def trunc_def)

lemma rank_of_1 [simp]: "0 \<le> n \<Longrightarrow> rank_of 1 n = n"
proof -
  assume "0 \<le> n"
  then have "rank_of 1 n = \<lfloor>real_of_int n + 1 / 2\<rfloor>" by (simp add: rank_of_def trunc_def)
  also have "\<dots> = n" by (simp add: floor_unique)
  finally show ?thesis .
qed

subsection \<open>Rank bounds\<close>

lemma sumG_simps [simp]: "sumG [] = 0" "sumG (e # es) = G e + sumG es"
  "sumG (xs @ ys) = sumG xs + sumG ys"
  by (simp_all add: sumG_def)

lemma rmaxs_append: "rmaxs b (xs @ ys) = rmaxs b xs @ rmaxs (b + sumG xs) ys"
  by (induction xs arbitrary: b) (auto simp: add.assoc)

lemma rmaxs_shift: "rmaxs (b + d) es = map (\<lambda>x. x + d) (rmaxs b es)"
proof (induction es arbitrary: b)
  case Nil
  then show ?case by simp
next
  case (Cons a es)
  have e: "b + d + G a = (b + G a) + d" by simp
  have "rmaxs (b + d + G a) es = map (\<lambda>x. x + d) (rmaxs (b + G a) es)"
    unfolding e by (rule Cons.IH)
  then show ?case by simp
qed

subsection \<open>Compress: facts that hold for every budget\<close>

lemma compress_nonempty: "es \<noteq> [] \<Longrightarrow> list_compress epsN m es \<noteq> []"
  by (induction epsN m es rule: list_compress.induct) auto

lemma compress_last_V: "es \<noteq> [] \<Longrightarrow> V (last (list_compress epsN m es)) = V (last es)"
  by (induction epsN m es rule: list_compress.induct) (auto simp: compress_nonempty)

lemma compress_set_V: "set (map V (list_compress epsN m es)) \<subseteq> set (map V es)"
  by (induction epsN m es rule: list_compress.induct) auto

lemma compress_sorted: "sorted (map V es) \<Longrightarrow> sorted (map V (list_compress epsN m es))"
proof (induction epsN m es rule: list_compress.induct)
  case (1 epsN missing t nt rest)
  let ?e = "nt\<lparr>G := G nt + missing\<rparr>"
  have sub: "set (map V (list_compress epsN 0 (?e # rest))) \<subseteq> set (map V (?e # rest))"
    by (rule compress_set_V)
  have "\<forall>x\<in>set (map V (?e # rest)). V t \<le> x" using "1.prems" by auto
  then have "\<forall>x\<in>set (map V (list_compress epsN 0 (?e # rest))). V t \<le> x"
    using sub by blast
  then show ?case using 1 by auto
qed simp_all

lemma compress_rmaxs:
  "b + G t + Delta t \<le> B \<Longrightarrow> \<forall>x\<in>set (rmaxs (b + G t + m) rest). x \<le> B \<Longrightarrow>
   \<forall>x\<in>set (rmaxs b (list_compress epsN m (t # rest))). x \<le> B"
proof (induction rest arbitrary: b t m)
  case Nil
  then show ?case by simp
next
  case (Cons nt rest)
  have nt: "b + G t + m + G nt + Delta nt \<le> B"
    and rest: "\<forall>x\<in>set (rmaxs (b + G t + m + G nt) rest). x \<le> B"
    using Cons.prems(2) by auto
  show ?case
  proof (cases "V t = V nt")
    case True
    let ?e = "nt\<lparr>Delta := Delta nt + (m + G nt), G := G t, Samples := Samples t\<rparr>"
    have "\<forall>x\<in>set (rmaxs b (list_compress epsN (m + G nt) (?e # rest))). x \<le> B"
      using nt rest by (intro Cons.IH) (auto simp: algebra_simps)
    then show ?thesis using True by simp
  next
    case False
    show ?thesis
    proof (cases "G t + G nt + m + Delta nt < epsN")
      case True
      let ?e = "nt\<lparr>G := G nt + (G t + m), Samples := Samples t\<rparr>"
      have "\<forall>x\<in>set (rmaxs b (list_compress epsN 0 (?e # rest))). x \<le> B"
        using nt rest by (intro Cons.IH) (auto simp: algebra_simps)
      then show ?thesis using True False by simp
    next
      case F2: False
      let ?e = "nt\<lparr>G := G nt + m\<rparr>"
      have "\<forall>x\<in>set (rmaxs (b + G t) (list_compress epsN 0 (?e # rest))). x \<le> B"
        using nt rest by (intro Cons.IH) (auto simp: algebra_simps)
      then show ?thesis using False F2 Cons.prems(1) by simp
    qed
  qed
qed

lemma compress_rmaxs0:
  "\<forall>x\<in>set (rmaxs 0 es). x \<le> B \<Longrightarrow> \<forall>x\<in>set (rmaxs 0 (list_compress epsN 0 es)). x \<le> B"
proof (cases es)
  case Nil
  then show ?thesis by simp
next
  case (Cons t rest)
  assume "\<forall>x\<in>set (rmaxs 0 es). x \<le> B"
  then have "0 + G t + Delta t \<le> B" "\<forall>x\<in>set (rmaxs (0 + G t + 0) rest). x \<le> B"
    using Cons by auto
  then show ?thesis unfolding Cons by (rule compress_rmaxs)
qed

subsection \<open>Compress on entries that count at least one observation\<close>

lemma compress_counts:
  "0 \<le> m \<Longrightarrow> \<forall>e\<in>set es. 1 \<le> G e \<and> 0 \<le> Delta e \<Longrightarrow>
   (\<forall>e\<in>set (list_compress epsN m es). 1 \<le> G e \<and> 0 \<le> Delta e)"
proof (induction epsN m es rule: list_compress.induct)
  case (1 epsN missing t nt rest)
  then show ?case by (auto simp: add_nonneg_nonneg add_increasing2)
qed simp_all

lemma compress_sumG:
  "0 \<le> m \<Longrightarrow> \<forall>e\<in>set (t # rest). 1 \<le> G e \<and> 0 \<le> Delta e \<Longrightarrow>
   sumG (list_compress epsN m (t # rest)) \<le> G t + m + sumG rest"
proof (induction rest arbitrary: t m)
  case Nil
  then show ?case by simp
next
  case (Cons nt rest)
  have g: "1 \<le> G t" "1 \<le> G nt" "0 \<le> Delta nt" "\<forall>e\<in>set rest. 1 \<le> G e \<and> 0 \<le> Delta e"
    using Cons.prems(2) by auto
  show ?case
  proof (cases "V t = V nt")
    case True
    let ?e = "nt\<lparr>Delta := Delta nt + (m + G nt), G := G t, Samples := Samples t\<rparr>"
    have "sumG (list_compress epsN (m + G nt) (?e # rest)) \<le> G ?e + (m + G nt) + sumG rest"
      using g Cons.prems(1) by (intro Cons.IH) auto
    then show ?thesis using True by simp
  next
    case False
    show ?thesis
    proof (cases "G t + G nt + m + Delta nt < epsN")
      case True
      let ?e = "nt\<lparr>G := G nt + (G t + m), Samples := Samples t\<rparr>"
      have "sumG (list_compress epsN 0 (?e # rest)) \<le> G ?e + 0 + sumG rest"
        using g Cons.prems(1) by (intro Cons.IH) auto
      then show ?thesis using True False by simp
    next
      case F2: False
      let ?e = "nt\<lparr>G := G nt + m\<rparr>"
      have "sumG (list_compress epsN 0 (?e # rest)) \<le> G ?e + 0 + sumG rest"
        using g Cons.prems(1) by (intro Cons.IH) auto
      then show ?thesis using False F2 by simp
    qed
  qed
qed

lemma compress_sumG0:
  "\<forall>e\<in>set es. 1 \<le> G e \<and> 0 \<le> Delta e \<Longrightarrow> sumG (list_compress epsN 0 es) \<le> sumG es"
proof (cases es)
  case Nil
  then show ?thesis by simp
next
  case (Cons t rest)
  assume "\<forall>e\<in>set es. 1 \<le> G e \<and> 0 \<le> Delta e"
  then have "sumG (list_compress epsN 0 (t # rest)) \<le> G t + 0 + sumG rest"
    unfolding Cons by (intro compress_sumG) auto
  then show ?thesis by (simp add: Cons)
qed

subsection \<open>With a budget of at most 2 no two different values are folded\<close>

lemma compress_keeps_values:
  "epsN \<le> 2 \<Longrightarrow> 0 \<le> m \<Longrightarrow> \<forall>e\<in>set es. 1 \<le> G e \<and> 0 \<le> Delta e \<Longrightarrow>
   set (map V (list_compress epsN m es)) = set (map V es)"
proof (induction epsN m es rule: list_compress.induct)
  case (1 epsN missing t nt rest)
  have nofold: "\<not> G t + G nt + missing + Delta nt < epsN" using "1.prems" by auto
  show ?case
  proof (cases "V t = V nt")
    case True
    have "set (map V (list_compress epsN (missing + G nt)
        (nt\<lparr>Delta := Delta nt + (missing + G nt), G := G t, Samples := Samples t\<rparr> # rest))) =
        set (map V (nt\<lparr>Delta := Delta nt + (missing + G nt), G := G t, Samples := Samples t\<rparr> # rest))"
      using True "1.prems" by (intro "1.IH"(1)) auto
    then show ?thesis using True by auto
  next
    case False
    have "set (map V (list_compress epsN 0 (nt\<lparr>G := G nt + missing\<rparr> # rest))) =
        set (map V (nt\<lparr>G := G nt + missing\<rparr> # rest))"
      using False nofold "1.prems" by (intro "1.IH"(3)) auto
    then show ?thesis using False nofold by auto
  qed
qed simp_all

subsection \<open>Fewer than 150 observations\<close>

lemma div50_facts:
  assumes "0 \<le> (m::int)" "m < 150"
  shows "0 \<le> m div 50" "m div 50 \<le> 2" "m div 50 \<le> 1 + m div 100" "0 \<le> m div 100" "m div 100 \<le> 1"
proof -
  show 0: "0 \<le> m div 50" using assms by (simp add: pos_imp_zdiv_nonneg_iff)
  have "m div 50 \<le> 149 div 50" using assms by (intro zdiv_mono1) auto
  then show 2: "m div 50 \<le> 2" by simp
  show h: "0 \<le> m div 100" using assms by (simp add: pos_imp_zdiv_nonneg_iff)
  have "m div 100 \<le> 149 div 100" using assms by (intro zdiv_mono1) auto
  then show "m div 100 \<le> 1" by simp
  show "m div 50 \<le> 1 + m div 100"
  proof (cases "m < 100")
    case True
    then have "m div 50 \<le> 99 div 50" by (intro zdiv_mono1) auto
    then show ?thesis using h by simp
  next
    case False
    then have "100 div 100 \<le> m div 100" by (intro zdiv_mono1) auto
    then show ?thesis using 2 by simp
  qed
qed

lemma counted_iff:
  "counted n es =
     (sorted (map V es) \<and> (\<forall>e\<in>set es. 1 \<le> G e \<and> 0 \<le> Delta e) \<and> sumG es \<le> n \<and>
      (\<forall>x\<in>set (rmaxs 0 es). x \<le> n + n div 100))"
  by (simp add: counted_def list_all_iff)

lemma sumG_nonneg: "\<forall>e\<in>set es. 1 \<le> G e \<and> 0 \<le> Delta e \<Longrightarrow> 0 \<le> sumG es"
  by (induction es) auto

lemma sumG_pos: "\<forall>e\<in>set es. 1 \<le> G e \<and> 0 \<le> Delta e \<Longrightarrow> es \<noteq> [] \<Longrightarrow> 1 \<le> sumG es"
  using sumG_nonneg [of "tl es"] by (cases es) auto

lemma list_Insert_counted:
  assumes n: "0 \<le> n" "n + 1 < 150" and c: "counted n es"
  shows "counted (n + 1) (list_Insert n es v t)"
    and "set (map V (list_Insert n es v t)) = insert v (set (map V es))"
proof -
  define n1 where "n1 = n + 1"
  define d where "d = eps2N n1"
  define pre where "pre = [x\<leftarrow>es. V x \<le> v]"
  define post where "post = [x\<leftarrow>es. \<not> V x \<le> v]"
  define e where "e = \<lparr>V = v, G = 1, Delta = (if pre \<noteq> [] \<and> post \<noteq> [] then d else 0),
                         Samples = [t]\<rparr>"
  define es1 where "es1 = pre @ e # post"
  have c': "sorted (map V es)" "\<forall>e\<in>set es. 1 \<le> G e \<and> 0 \<le> Delta e" "sumG es \<le> n"
    "\<forall>x\<in>set (rmaxs 0 es). x \<le> n + n div 100"
    using c by (simp_all add: counted_iff)
  have d0: "d = n1 div 50"
    using n by (simp add: d_def eps2N_def trunc_div_def n1_def)
  have n1b: "0 \<le> n1" "n1 < 150" using n by (simp_all add: n1_def)
  have d: "d = n1 div 50" "0 \<le> d" "d \<le> 2" "d \<le> 1 + n1 div 100"
    using div50_facts [OF n1b] by (simp_all add: d0)
  have es: "es = pre @ post"
    unfolding pre_def post_def using c'(1) by (rule sorted_split)
  have li: "list_Insert n es v t = (if n1 mod 50 = 0 then list_compress d 0 es1 else es1)"
    by (simp add: list_Insert_def Let_def es1_def e_def pre_def post_def d_def n1_def)
  have pl: "es1 = place e es"
    by (simp add: es1_def place_def pre_def post_def e_def)
  have s1: "sorted (map V es1)" unfolding pl using c'(1) by (rule sorted_place)
  have g1: "\<forall>x\<in>set es1. 1 \<le> G x \<and> 0 \<le> Delta x"
    using c'(2) d(2) by (auto simp: pl set_place e_def)
  have gpre: "\<forall>x\<in>set pre. 1 \<le> G x \<and> 0 \<le> Delta x" "\<forall>x\<in>set post. 1 \<le> G x \<and> 0 \<le> Delta x"
    using c'(2) by (auto simp: pre_def post_def)
  have sumpre: "sumG pre + sumG post = sumG es"
    using arg_cong [OF es, of sumG] by simp
  have sum1: "sumG es1 = sumG es + 1"
    using sumpre by (simp add: es1_def e_def)
  have rm: "rmaxs 0 es = rmaxs 0 pre @ rmaxs (sumG pre) post"
    using arg_cong [OF es, of "rmaxs 0"] by (simp add: rmaxs_append)
  have rm1: "rmaxs 0 es1 = rmaxs 0 pre @ (sumG pre + 1 + Delta e) #
      map (\<lambda>x. x + 1) (rmaxs (sumG pre) post)"
    by (simp add: es1_def rmaxs_append e_def rmaxs_shift [symmetric])
  have mono: "n + n div 100 \<le> n1 + n1 div 100" "n + n div 100 + 1 \<le> n1 + n1 div 100"
    using n by (simp_all add: n1_def zdiv_mono1)
  have mid: "sumG pre + 1 + Delta e \<le> n1 + n1 div 100"
  proof (cases "pre \<noteq> [] \<and> post \<noteq> []")
    case True
    then have "1 \<le> sumG post" using gpre(2) by (intro sumG_pos) auto
    then have "sumG pre + 1 \<le> n" using sumpre c'(3) by simp
    moreover have "Delta e = d" using True by (simp add: e_def)
    ultimately show ?thesis using d(4) by (simp add: n1_def)
  next
    case False
    have "0 \<le> sumG post" using gpre(2) by (rule sumG_nonneg)
    then have "sumG pre + 1 \<le> n1" using sumpre c'(3) by (simp add: n1_def)
    moreover have "Delta e = 0" using False by (auto simp: e_def)
    moreover have "0 \<le> n1 div 100" using div50_facts [OF n1b] by simp
    ultimately show ?thesis by simp
  qed
  have old: "\<And>x. x \<in> set (rmaxs 0 pre) \<or> x \<in> set (rmaxs (sumG pre) post) \<Longrightarrow>
      x + 1 \<le> n1 + n1 div 100"
  proof -
    fix x assume "x \<in> set (rmaxs 0 pre) \<or> x \<in> set (rmaxs (sumG pre) post)"
    then have "x \<in> set (rmaxs 0 es)" unfolding rm by auto
    then have "x \<le> n + n div 100" using c'(4) by blast
    then show "x + 1 \<le> n1 + n1 div 100" using mono(2) by linarith
  qed
  have r1: "\<forall>x\<in>set (rmaxs 0 es1). x \<le> n1 + n1 div 100"
  proof
    fix x assume "x \<in> set (rmaxs 0 es1)"
    then consider "x \<in> set (rmaxs 0 pre)" | "x = sumG pre + 1 + Delta e"
      | y where "y \<in> set (rmaxs (sumG pre) post)" "x = y + 1"
      unfolding rm1 by auto
    then show "x \<le> n1 + n1 div 100"
    proof cases
      case 1
      then have "x + 1 \<le> n1 + n1 div 100" by (intro old) simp
      then show ?thesis by simp
    next
      case 2
      then show ?thesis using mid by simp
    next
      case 3
      then have "y + 1 \<le> n1 + n1 div 100" by (intro old) simp
      then show ?thesis using 3 by simp
    qed
  qed
  have cnt1: "counted n1 es1"
    unfolding counted_iff using s1 g1 sum1 c'(3) r1 by (simp add: n1_def)
  have set1: "set (map V es1) = insert v (set (map V es))"
    by (simp add: pl set_place e_def)
  show "counted (n + 1) (list_Insert n es v t)"
  proof (cases "n1 mod 50 = 0")
    case True
    have "sorted (map V (list_compress d 0 es1))" using s1 by (rule compress_sorted)
    moreover have "\<forall>x\<in>set (list_compress d 0 es1). 1 \<le> G x \<and> 0 \<le> Delta x"
      using g1 by (intro compress_counts) auto
    moreover have "sumG (list_compress d 0 es1) \<le> sumG es1" using g1 by (rule compress_sumG0)
    moreover have "\<forall>x\<in>set (rmaxs 0 (list_compress d 0 es1)). x \<le> n1 + n1 div 100"
      using r1 by (rule compress_rmaxs0)
    ultimately have "counted n1 (list_compress d 0 es1)"
      unfolding counted_iff using sum1 c'(3) by (simp add: n1_def)
    then show ?thesis using True by (simp add: li n1_def)
  next
    case False
    then show ?thesis using cnt1 by (simp add: li n1_def)
  qed
  show "set (map V (list_Insert n es v t)) = insert v (set (map V es))"
  proof (cases "n1 mod 50 = 0")
    case True
    have "set (map V (list_compress d 0 es1)) = set (map V es1)"
      using d(3) g1 by (intro compress_keeps_values) auto
    then show ?thesis using True set1 by (simp add: li)
  next
    case False
    then show ?thesis using set1 by (simp add: li)
  qed
qed

lemma list_Inserts_counted:
  "0 \<le> n \<Longrightarrow> n + int (length vts) < 150 \<Longrightarrow> counted n es \<Longrightarrow>
   counted (n + int (length vts)) (list_Inserts n es vts) \<and>
   set (map V (list_Inserts n es vts)) = set (map V es) \<union> set (map fst vts)"
proof (induction vts arbitrary: n es)
  case Nil
  then show ?case by simp
next
  case (Cons vt vts)
  have n1: "0 \<le> n + 1" "n + 1 < 150" "n + 1 + int (length vts) < 150"
    using Cons.prems(1,2) by auto
  note st = list_Insert_counted [OF Cons.prems(1) n1(2) Cons.prems(3), of "fst vt" "snd vt"]
  from Cons.IH [OF n1(1) n1(3) st(1)]
  show ?case using st(2) by (simp add: add.assoc)
qed

lemma counted_empty: "counted 0 []"
  by (simp add: counted_def)

lemma list_Quantile_first:
  "es \<noteq> [] \<Longrightarrow> \<forall>e\<in>set es. 1 \<le> G e \<and> 0 \<le> Delta e \<Longrightarrow> epsN \<le> 1 \<Longrightarrow>
   \<exists>smp. list_Quantile 0 epsN 0 es = Inr (V (hd es), smp)"
proof (cases es)
  case Nil
  assume "es \<noteq> []"
  with Nil show ?thesis by simp
next
  case (Cons t rest)
  assume g: "\<forall>e\<in>set es. 1 \<le> G e \<and> 0 \<le> Delta e" and e: "epsN \<le> 1"
  show ?thesis
  proof (cases rest)
    case Nil
    with Cons show ?thesis by simp
  next
    case rest: (Cons nv rest')
    have "1 \<le> G t" "1 \<le> G nv" "0 \<le> Delta nv" using g Cons rest by auto
    then show ?thesis using e Cons rest by simp
  qed
qed

lemma list_Quantile_last:
  "es \<noteq> [] \<Longrightarrow> \<forall>x\<in>set (rmaxs (rmin + G (hd es)) (tl es)). x \<le> r + epsN \<Longrightarrow>
   list_Quantile r epsN rmin es = Inr (V (last es), Samples (last es))"
proof (induction es arbitrary: rmin)
  case Nil
  then show ?case by simp
next
  case (Cons t es)
  show ?case
  proof (cases es)
    case Nil
    then show ?thesis by simp
  next
    case (Cons nv rest)
    have 1: "rmin + G t + G nv + Delta nv \<le> r + epsN"
      and 2: "\<forall>x\<in>set (rmaxs (rmin + G t + G nv) rest). x \<le> r + epsN"
      using Cons.prems(2) Cons by auto
    have "list_Quantile r epsN (rmin + G t) es = Inr (V (last es), Samples (last es))"
      using 2 Cons by (intro Cons.IH) auto
    then show ?thesis using 1 Cons by simp
  qed
qed

lemma sorted_hd_Min: "sorted xs \<Longrightarrow> xs \<noteq> [] \<Longrightarrow> hd xs = Min (set xs)"
  by (cases xs) (auto intro!: Min_eqI [symmetric])

lemma sorted_last_Max: "sorted xs \<Longrightarrow> xs \<noteq> [] \<Longrightarrow> last xs = Max (set xs)"
proof -
  assume s: "sorted xs" and ne: "xs \<noteq> []"
  have "\<forall>x\<in>set xs. x \<le> last xs"
    using s ne by (induction xs) (auto split: if_splits)
  then show ?thesis using ne by (intro Max_eqI [symmetric]) auto
qed

lemma counted_Quantiles:
  assumes c: "counted n es" and ne: "es \<noteq> []" and n: "0 \<le> n" "n < 150"
  shows "\<exists>smp. list_Quantile (rank_of 0 n) (eps1N n) 0 es = Inr (Min (set (map V es)), smp)"
    and "\<exists>smp. list_Quantile (rank_of 1 n) (eps1N n) 0 es = Inr (Max (set (map V es)), smp)"
proof -
  have c': "sorted (map V es)" "\<forall>e\<in>set es. 1 \<le> G e \<and> 0 \<le> Delta e" "sumG es \<le> n"
    "\<forall>x\<in>set (rmaxs 0 es). x \<le> n + n div 100"
    using c by (simp_all add: counted_iff)
  have e: "eps1N n = n div 100" "eps1N n \<le> 1"
    using n div50_facts [OF n] by (simp_all add: eps1N_def trunc_div_def)
  have "hd (map V es) = Min (set (map V es))" using c'(1) ne by (intro sorted_hd_Min) auto
  then have hd: "V (hd es) = Min (set (map V es))" using ne by (simp add: hd_map)
  have "last (map V es) = Max (set (map V es))" using c'(1) ne by (intro sorted_last_Max) auto
  then have last: "V (last es) = Max (set (map V es))" using ne by (simp add: last_map)
  from list_Quantile_first [OF ne c'(2) e(2)]
  show "\<exists>smp. list_Quantile (rank_of 0 n) (eps1N n) 0 es = Inr (Min (set (map V es)), smp)"
    by (simp add: hd)
  have "set (rmaxs (0 + G (hd es)) (tl es)) \<subseteq> set (rmaxs 0 es)"
    using ne by (cases es) auto
  then have "\<forall>x\<in>set (rmaxs (0 + G (hd es)) (tl es)). x \<le> n + eps1N n"
    using c'(4) e(1) by auto
  from list_Quantile_last [OF ne this]
  show "\<exists>smp. list_Quantile (rank_of 1 n) (eps1N n) 0 es = Inr (Max (set (map V es)), smp)"
    using n by (simp add: last)
qed

section \<open>Runs from a new summary\<close>

lemma levels_ok_zeroRand: "levels_ok zeroRand"
  by (simp add: levels_ok_def zeroRand_def level_of.simps maxHeight_def)

lemma Inserts_new:
  assumes "levels_ok r \<or> length vts < maxHeight"
  shows "\<exists>r' s'. Inserts r NewSummary vts = Inr (r', s') \<and>
           holds s' (list_Inserts 0 [] vts) \<and> N s' = int (length vts)"
proof -
  have lev: "levels_ok r \<or> 0 + length vts < maxHeight" using assms by simp
  from Inserts_held [OF held_NewSummary lev]
  obtain r' s' where "Inserts r NewSummary vts = Inr (r', s')"
    "held s' (list_Inserts (N NewSummary) [] vts) (0 + length vts)"
    "N s' = N NewSummary + int (length vts)"
    by blast
  then show ?thesis by (auto simp: NewSummary_def held_holds)
qed

lemma entries_holds: "holds s es \<Longrightarrow> entries (the (data s)) = Inr es"
  by (auto simp: holds_iff entries_wf)





lemma compress_run:
  "levels_ok r \<or> length vts < maxHeight \<Longrightarrow>
   bind (Inserts r NewSummary vts) (\<lambda>(r1, s).
   bind (Summary_compress r1 s) (\<lambda>(r2, s'). entries (the (data s')))) =
     Inr (list_compress (eps2N (int (length vts))) 0 (list_Inserts 0 [] vts))"
proof -
  assume "levels_ok r \<or> length vts < maxHeight"
  then have lev: "levels_ok r \<or> 0 + length vts < maxHeight" by simp
  from Inserts_held [OF held_NewSummary lev]
  obtain r1 s where s: "Inserts r NewSummary vts = Inr (r1, s)"
    "held s (list_Inserts (N NewSummary) [] vts) (0 + length vts)"
    "N s = N NewSummary + int (length vts)"
    by blast
  have n: "N NewSummary = 0" by (simp add: NewSummary_def)
  from Summary_compress_held [OF s(2), of r1]
  obtain r2 s' where s': "Summary_compress r1 s = Inr (r2, s')"
    "held s' (list_compress (eps2N (N s)) 0 (list_Inserts (N NewSummary) [] vts)) (0 + length vts)"
    by blast
  from entries_holds [OF held_holds [OF s'(2)]] s(1) s'(1) s(3) n
  show ?thesis by simp
qed

section \<open>The slices of a store\<close>





section \<open>Small histories and the histories of the tests\<close>










lemma sevens_entries:
  "list_Inserts 0 [] (sevens @ [(999, 50)]) =
     [\<lparr>V = 1, G = 1, Delta = 0, Samples = [0]\<rparr>,
      \<lparr>V = 7, G = 1, Delta = 48, Samples = [2]\<rparr>,
      \<lparr>V = 999, G = 1, Delta = 1, Samples = [50]\<rparr>,
      \<lparr>V = 1000, G = 48, Delta = 0, Samples = [1]\<rparr>]"
  by code_simp

lemma length_descending: "int (length (descending n)) = int n"
  by (simp add: descending_def)

lemma descending_quantile:
  "list_Quantile (rank_of 0 150) (eps1N 150) 0 (list_Inserts 0 [] (descending 150)) =
     Inr (2, [149])"
  by code_simp


section \<open>The claims\<close>

text \<open>
  In the statements below a history is a list of calls \<^verbatim>\<open>Insert(v, t)\<close> made on a new
  summary, \<open>Inserts r NewSummary vts\<close>, with \<open>r\<close> the state of the random source. The
  hypothesis \<open>levels_ok r\<close> says that no draw of the source asks for a level of
  \<open>maxHeight\<close> or more, where \<^verbatim>\<open>Skiplist.Insert\<close> indexes past the end of the head's
  arrays. \<open>holds s es\<close> says that the store of \<open>s\<close> is a well-formed skiplist holding the
  entries \<open>es\<close>; every summary built from \<^verbatim>\<open>NewSummary\<close> by \<^verbatim>\<open>Insert\<close>,
  \<^verbatim>\<open>Merge\<close> and \<^verbatim>\<open>UnmarshalJSON\<close> has such a store (\<open>Inserts_held\<close>,
  \<open>Merge_held\<close>, \<open>UnmarshalJSON_held\<close>).
\<close>





text \<open>
  Claim C2 (entries ascending, and the true rank of every entry inside the interval from
  the sum of \<^verbatim>\<open>G\<close> up to the entry to that sum plus its \<^verbatim>\<open>Delta\<close>): fails on the code.
  Insert 1, 1000 and 48 times the value 7: the compress pass of the 50th insertion folds
  the 48 equal entries into one and adds the 47 it dropped to the \<^verbatim>\<open>G\<close> of the entry
  1000 behind them. The value 999 inserted next stands in front of that entry, so the
  sums of \<^verbatim>\<open>G\<close> give it the interval from 3 to 4, and its true rank is 50.
\<close>

theorem C2_rank_interval_broken:
  "bind (Inserts zeroRand NewSummary (sevens @ [(999, 50)])) (\<lambda>(r, s).
   bind (entries (the (data s))) (\<lambda>es.
     Inr (es, brackets 0 es, ranks (map fst (sevens @ [(999, 50)])) 999,
          bracketed (map fst (sevens @ [(999, 50)])) es)))
   = Inr ([\<lparr>V = 1, G = 1, Delta = 0, Samples = [0]\<rparr>,
           \<lparr>V = 7, G = 1, Delta = 48, Samples = [2]\<rparr>,
           \<lparr>V = 999, G = 1, Delta = 1, Samples = [50]\<rparr>,
           \<lparr>V = 1000, G = 48, Delta = 0, Samples = [1]\<rparr>],
          [(1, 1, 1), (7, 2, 50), (999, 3, 4), (1000, 51, 51)],
          [50], False)"
proof -
  from Inserts_new [OF disjI1 [OF levels_ok_zeroRand], of "sevens @ [(999, 50)]"]
  obtain r' s' where s': "Inserts zeroRand NewSummary (sevens @ [(999, 50)]) = Inr (r', s')"
    "holds s' (list_Inserts 0 [] (sevens @ [(999, 50)]))"
    by blast
  have e: "entries (the (data s')) = Inr (list_Inserts 0 [] (sevens @ [(999, 50)]))"
    by (rule entries_holds [OF s'(2)])
  have r: "ranks (map fst (sevens @ [(999, 50)])) 999 = [50]"
    by code_simp
  have b: "bracketed (map fst (sevens @ [(999, 50)]))
     [\<lparr>V = 1, G = 1, Delta = 0, Samples = [0]\<rparr>,
      \<lparr>V = 7, G = 1, Delta = 48, Samples = [2]\<rparr>,
      \<lparr>V = 999, G = 1, Delta = 1, Samples = [50]\<rparr>,
      \<lparr>V = 1000, G = 48, Delta = 0, Samples = [1]\<rparr>] = False"
    by code_simp
  show ?thesis
    by (simp only: s'(1) bind_Inr prod.case e sevens_entries r b) simp
qed

text \<open>
  Claim C3 (Merge inserts exactly the entries of the other store): fails on the code.
  \<^verbatim>\<open>Merge\<close> starts its walk at the head node of the other store, so it also inserts
  the head's zero-valued entry. Merging a summary holding the observation 3 into a
  summary holding the observation 5 leaves three entries in the store, the first of them
  \<open>zeroEntry\<close>, which is no entry of the other store.
\<close>

theorem C3_merge_inserts_sentinel:
  "bind (Inserts zeroRand NewSummary [(5, 0)]) (\<lambda>(r1, s).
   bind (Inserts r1 NewSummary [(3, 1)]) (\<lambda>(r2, s2).
   bind (Summary_Merge r2 s s2) (\<lambda>(r3, s').
   bind (entries (the (data s'))) (\<lambda>es.
   bind (entries (the (data s2))) (\<lambda>es2. Inr (N s', es, es2))))))
   = Inr (2,
          [zeroEntry,
           \<lparr>V = 3, G = 1, Delta = 0, Samples = [1]\<rparr>,
           \<lparr>V = 5, G = 1, Delta = 0, Samples = [0]\<rparr>],
          [\<lparr>V = 3, G = 1, Delta = 0, Samples = [1]\<rparr>])"
  by code_simp

text \<open>
  Claim C4 (Quantile panics exactly on an empty summary and never returns a default zero
  value): fails on the code. A new summary panics, but the same summary encoded and decoded
  has \<open>N = 0\<close> and a store holding the head's zero-valued entry, and \<^verbatim>\<open>Quantile\<close>
  returns the value 0 with no sample instead of panicking.
\<close>

theorem C4_quantile_of_decoded_empty_summary:
  "Summary_Quantile NewSummary (1 / 2) = Inl Panic \<and>
   bind (Summary_MarshalJSON NewSummary) (\<lambda>w.
   bind (Summary_UnmarshalJSON zeroRand w) (\<lambda>(r, s).
     Inr (N s, Summary_Quantile s (1 / 2))))
   = Inr (0, Inr (0, []))"
  by code_simp

text \<open>
  Claim C5 (a JSON round trip keeps \<open>N\<close> and every quantile): fails on the code.
  \<^verbatim>\<open>MarshalJSON\<close> flattens the store from the head node on, so the encoded data starts
  with the head's zero-valued entry and the decoded store holds it as an entry. After
  inserting 5, 6 and 7, \<^verbatim>\<open>Quantile(0)\<close> is 5 with sample 0 before the round trip and 0
  with no sample after it.
\<close>

theorem C5_round_trip_changes_quantile:
  "bind (Inserts zeroRand NewSummary [(5, 0), (6, 1), (7, 2)]) (\<lambda>(r, s).
   bind (Summary_MarshalJSON s) (\<lambda>w.
   bind (Summary_UnmarshalJSON r w) (\<lambda>(r', s').
     Inr (N s, N s', Summary_Quantile s 0, Summary_Quantile s' 0))))
   = Inr (3, 3, Inr (5, [0]), Inr (0, []))"
  by code_simp

text \<open>
  Claim C6 (\<^verbatim>\<open>Quantile(0)\<close> and \<^verbatim>\<open>Quantile(1)\<close> return the exact minimum and
  maximum after any insertions): fails as stated. Insert 150, 149, ..., 1: the compress
  pass of the 150th insertion has a budget of 3 and folds the first entry, the minimum
  1, into the second, and \<^verbatim>\<open>Quantile(0)\<close> returns 2.
\<close>

theorem C6_minimum_lost_at_150:
  "bind (Inserts zeroRand NewSummary (descending 150))
     (\<lambda>(r, s). Inr (N s, Summary_Quantile s 0)) = Inr (150, Inr (2, [149])) \<and>
   Min (set (map fst (descending 150))) = 1"
proof -
  from Inserts_new [OF disjI1 [OF levels_ok_zeroRand], of "descending 150"]
  obtain r' s' where s': "Inserts zeroRand NewSummary (descending 150) = Inr (r', s')"
    "holds s' (list_Inserts 0 [] (descending 150))" "N s' = int (length (descending 150))"
    by blast
  have n: "N s' = 150" using s'(3) by (simp only: length_descending)
  have a: "bind (Inserts zeroRand NewSummary (descending 150))
     (\<lambda>(r, s). Inr (N s, Summary_Quantile s 0)) = Inr (150, Inr (2, [149]))"
    using s'(1) n Summary_Quantile_holds [OF s'(2), of 0] descending_quantile by simp
  have b: "Min (set (map fst (descending 150))) = 1" by code_simp
  from a b show ?thesis ..
qed

text \<open>
  Claim C6, amended: after at least one and fewer than 150 insertions, in any order,
  under a random source with \<open>levels_ok r\<close>,
  \<^verbatim>\<open>Quantile(0)\<close> returns the exact minimum and \<^verbatim>\<open>Quantile(1)\<close> the exact maximum
  of the inserted values.
\<close>

theorem C6_boundary_quantiles_under_150:
  assumes lev: "levels_ok r" and ne: "vts \<noteq> []" and len: "length vts < 150"
  shows "\<exists>r' s smp0 smp1. Inserts r NewSummary vts = Inr (r', s) \<and>
     Summary_Quantile s 0 = Inr (Min (set (map fst vts)), smp0) \<and>
     Summary_Quantile s 1 = Inr (Max (set (map fst vts)), smp1)"
proof -
  define n where "n = int (length vts)"
  define es where "es = list_Inserts 0 [] vts"
  have n: "0 \<le> n" "n < 150" using len by (simp_all add: n_def)
  from Inserts_new [OF disjI1 [OF lev], of vts]
  obtain r' s where s: "Inserts r NewSummary vts = Inr (r', s)" "holds s es" "N s = n"
    unfolding es_def n_def by blast
  have l: "(0::int) + int (length vts) < 150" using len by simp
  from list_Inserts_counted [OF order_refl l counted_empty]
  have c: "counted n es" and vs: "set (map V es) = set (map fst vts)"
    by (simp_all add: n_def es_def)
  have es_ne: "es \<noteq> []" using vs ne by auto
  from counted_Quantiles [OF c es_ne n]
  obtain smp0 smp1 where
    "list_Quantile (rank_of 0 n) (eps1N n) 0 es = Inr (Min (set (map V es)), smp0)"
    "list_Quantile (rank_of 1 n) (eps1N n) 0 es = Inr (Max (set (map V es)), smp1)"
    by blast
  then have "Summary_Quantile s 0 = Inr (Min (set (map fst vts)), smp0)"
    "Summary_Quantile s 1 = Inr (Max (set (map fst vts)), smp1)"
    using Summary_Quantile_holds [OF s(2)] s(3) vs by simp_all
  with s(1) show ?thesis by blast
qed

text \<open>
  The amended claim C6 at the history 30, 10, 20, 40: the two quantiles are 10 and 40.
\<close>

theorem C6_boundary_quantiles_witness:
  "levels_ok zeroRand \<and> [(30, 0), (10, 1), (20, 2), (40, 3)] \<noteq> ([]::(int \<times> nat) list) \<and>
   length [(30, 0), (10, 1), (20, 2), (40::int, 3::nat)] < 150 \<and>
   (\<exists>r' s smp0 smp1.
      Inserts zeroRand NewSummary [(30, 0), (10, 1), (20, 2), (40, 3)] = Inr (r', s) \<and>
      Summary_Quantile s 0 = Inr (10, smp0) \<and> Summary_Quantile s 1 = Inr (40, smp1))"
proof -
  have h: "[(30, 0), (10, 1), (20, 2), (40::int, 3::nat)] \<noteq> []"
    "length [(30, 0), (10, 1), (20, 2), (40::int, 3::nat)] < 150"
    by simp_all
  from C6_boundary_quantiles_under_150 [OF levels_ok_zeroRand h]
  show ?thesis using levels_ok_zeroRand by simp
qed




text \<open>
  Claim C8 (compress keeps the samples of either entry, at random: both outcomes occur
  for some draws): fails on the code. The draw is \<^verbatim>\<open>rand.Intn(1)\<close>, which is 0 for
  every state of the generator, so \<^verbatim>\<open>changeSample\<close> is always true. For every state
  \<open>r\<close> of the random source, every value \<open>v\<close> and all samples \<open>t1\<close> and \<open>t2\<close>:
  compressing the two entries of value \<open>v\<close> left by \<^verbatim>\<open>Insert(v, t1)\<close> and
  \<^verbatim>\<open>Insert(v, t2)\<close> leaves one entry with the samples of the removed one, \<open>[t1]\<close>; the
  surviving entry never keeps its own sample \<open>t2\<close>.
\<close>

theorem C8_changeSample_always_true:
  "bind (Inserts r NewSummary [(v, t1), (v, t2)]) (\<lambda>(r1, s).
   bind (Summary_compress r1 s) (\<lambda>(r2, s'). entries (the (data s'))))
   = Inr [\<lparr>V = v, G = 1, Delta = 1, Samples = [t1]\<rparr>]"
proof -
  have "length [(v, t1), (v, t2)] < maxHeight" by (simp add: maxHeight_def)
  then have lev: "levels_ok r \<or> length [(v, t1), (v, t2)] < maxHeight" ..
  have "list_compress (eps2N (int (length [(v, t1), (v, t2)]))) 0
          (list_Inserts 0 [] [(v, t1), (v, t2)])
        = [\<lparr>V = v, G = 1, Delta = 1, Samples = [t1]\<rparr>]"
    by (simp add: list_Insert_def place_def eps2N_def trunc_div_def Let_def)
  with compress_run [OF lev] show ?thesis by simp
qed







end
